theory Spec2Isabelle
  imports Complex_Main "HOL-Library.Stream" "HOL-Library.Log_Nat"
begin

section \<open>Freivald's algorithm: the data model\<close>

text \<open>
  The notebook works on NumPy arrays. A one-dimensional array is a list of numbers, a
  two-dimensional array of shape \<open>(r, c)\<close> is the list of its \<open>r\<close> rows, each of
  length \<open>c\<close>. The array without rows is \<open>[]\<close> and has shape \<open>(0, 0)\<close>.
  The entries are real numbers. The arithmetic of the arrays is a parameter of every
  operation: \<open>float64\<close> is the arithmetic of the program, whose arrays hold binary64
  numbers, and \<open>exact\<close> is the arithmetic of the real numbers, for the statements that
  are about exact arithmetic.
\<close>

type_synonym vec = "real list"
type_synonym matrix = "real list list"

datatype error = ValueError

definition ncols :: "matrix \<Rightarrow> nat" where
  "ncols M = (case M of [] \<Rightarrow> 0 | row # _ \<Rightarrow> length row)"

text \<open>\<open>square n M\<close>: \<open>M\<close> is an array of shape \<open>(n, n)\<close>.\<close>

definition square :: "nat \<Rightarrow> matrix \<Rightarrow> bool" where
  "square n M = (length M = n \<and> list_all (\<lambda>row. length row = n) M)"

subsection \<open>Arithmetic\<close>

text \<open>The inner product of two one-dimensional arrays of one length, exactly.\<close>

definition dot :: "vec \<Rightarrow> vec \<Rightarrow> real" where
  "dot xs ys = sum_list (map2 (*) xs ys)"

text \<open>
  Rounding to binary64: to the nearest number with a significand of 53 bits, a tie going to
  the even significand. \<open>exponent x\<close> is the integer \<open>e\<close> with \<open>2^e \<le> |x| < 2^(e+1)\<close>. The range
  of the exponent is not bounded: there is no overflow to infinity and no subnormal number.
\<close>

definition round_even :: "real \<Rightarrow> int" where
  "round_even x =
     (let f = \<lfloor>x\<rfloor>; d = x - of_int f
      in if d < 1 / 2 then f else if 1 / 2 < d then f + 1 else if even f then f else f + 1)"

definition exponent :: "real \<Rightarrow> int" where
  "exponent x =
     (if 1 \<le> \<bar>x\<bar> then bitlen \<lfloor>\<bar>x\<bar>\<rfloor> - 1 else - bitlen (\<lceil>1 / \<bar>x\<bar>\<rceil> - 1))"

definition binary64 :: "real \<Rightarrow> real" where
  "binary64 x =
     (if x = 0 then 0
      else of_int (round_even (x / 2 powi (exponent x - 52))) * 2 powi (exponent x - 52))"

text \<open>The inner product in binary64: the products are accumulated from left to right, and
  every product and every sum is rounded. NumPy leaves the order of accumulation to its
  linear-algebra backend; for rows of at most two entries, as in the evaluations below, every
  order gives the same sum.\<close>

definition dot64 :: "vec \<Rightarrow> vec \<Rightarrow> real" where
  "dot64 xs ys = foldl (\<lambda>s (x, y). binary64 (s + binary64 (x * y))) 0 (zip xs ys)"

text \<open>An arithmetic: the inner product behind \<open>@\<close>, the subtraction behind \<open>-\<close> and the
  addition behind \<open>+=\<close>. The arithmetic of another element type, such as int64 with its
  wrap-around, is a further value of this record; a statement about every arithmetic covers
  it.\<close>

record arithmetic =
  inner :: "vec \<Rightarrow> vec \<Rightarrow> real"
  sub :: "real \<Rightarrow> real \<Rightarrow> real"
  add :: "real \<Rightarrow> real \<Rightarrow> real"

definition exact :: arithmetic where
  "exact = \<lparr>inner = dot, sub = (-), add = (+)\<rparr>"

definition float64 :: arithmetic where
  "float64 = \<lparr>inner = dot64, sub = (\<lambda>a b. binary64 (a - b)), add = (\<lambda>a b. binary64 (a + b))\<rparr>"

subsection \<open>The array operations the notebook uses\<close>

text \<open>\<open>M @ X\<close> for a two-dimensional \<open>M\<close> and a one-dimensional \<open>X\<close>: the inner
  dimensions must agree.\<close>

definition matvec :: "arithmetic \<Rightarrow> matrix \<Rightarrow> vec \<Rightarrow> error + vec" where
  "matvec ar M X =
     (if ncols M = length X then Inr (map (\<lambda>row. inner ar row X) M) else Inl ValueError)"

definition column :: "matrix \<Rightarrow> nat \<Rightarrow> vec" where
  "column M j = map (\<lambda>row. row ! j) M"

text \<open>\<open>A @ B\<close> for two-dimensional arrays.\<close>

definition matmul :: "arithmetic \<Rightarrow> matrix \<Rightarrow> matrix \<Rightarrow> error + matrix" where
  "matmul ar A B =
     (if ncols A = length B
      then Inr (map (\<lambda>row. map (\<lambda>j. inner ar row (column B j)) [0..<ncols B]) A)
      else Inl ValueError)"

text \<open>\<open>a - b\<close> for one-dimensional arrays, with NumPy's broadcasting: the lengths agree,
  or one of them is 1 and that array is stretched.\<close>

definition vsub :: "arithmetic \<Rightarrow> vec \<Rightarrow> vec \<Rightarrow> error + vec" where
  "vsub ar a b =
     (if length a = length b then Inr (map2 (sub ar) a b)
      else if length b = 1 then Inr (map (\<lambda>x. sub ar x (hd b)) a)
      else if length a = 1 then Inr (map (\<lambda>y. sub ar (hd a) y) b)
      else Inl ValueError)"

text \<open>\<open>res.any()\<close>: some entry is not zero.\<close>

definition any :: "vec \<Rightarrow> bool" where
  "any v = list_ex (\<lambda>x. x \<noteq> 0) v"

subsection \<open>The random source\<close>

text \<open>
  NumPy's global generator is the state of the program. It is represented by the raw
  numbers it is going to produce, in order; every sampling function consumes as many as it
  returns values. \<open>randint low high size\<close> returns integers of \<open>[low, high)\<close> and fails
  when the interval is empty; \<open>random\<close> returns a multiple of \<open>2^-53\<close> in \<open>[0, 1)\<close>.
\<close>

type_synonym rng = "nat stream"

definition randint :: "nat \<Rightarrow> nat \<Rightarrow> nat \<Rightarrow> rng \<Rightarrow> (error + nat list) \<times> rng" where
  "randint low high sz g =
     (if low < high
      then (Inr (map (\<lambda>r. low + r mod (high - low)) (stake sz g)), sdrop sz g)
      else (Inl ValueError, g))"

definition unit_float :: "nat \<Rightarrow> real" where
  "unit_float r = real (r mod 2 ^ 53) / 2 ^ 53"

definition random :: "rng \<Rightarrow> real \<times> rng" where
  "random g = (unit_float (shd g), stl g)"

text \<open>\<open>np.random.random((n, n))\<close>, filled row by row.\<close>

definition random_matrix :: "nat \<Rightarrow> rng \<Rightarrow> matrix \<times> rng" where
  "random_matrix n g =
     (map (\<lambda>i. map unit_float (stake n (sdrop (i * n) g))) [0..<n], sdrop (n * n) g)"

section \<open>The verifier\<close>

text \<open>\<open>A @ (B @ X) - (C @ X)\<close>.\<close>

definition residual :: "arithmetic \<Rightarrow> matrix \<Rightarrow> matrix \<Rightarrow> matrix \<Rightarrow> vec \<Rightarrow> error + vec" where
  "residual ar A B C X =
     (case matvec ar B X of Inl e \<Rightarrow> Inl e | Inr BX \<Rightarrow>
      (case matvec ar A BX of Inl e \<Rightarrow> Inl e | Inr ABX \<Rightarrow>
       (case matvec ar C X of Inl e \<Rightarrow> Inl e | Inr CX \<Rightarrow> vsub ar ABX CX)))"

text \<open>The loop \<open>for _ in range(k)\<close>, with \<open>n = A.shape[0]\<close> computed before it.\<close>

fun rounds :: "arithmetic \<Rightarrow> matrix \<Rightarrow> matrix \<Rightarrow> matrix \<Rightarrow> nat \<Rightarrow> nat \<Rightarrow> rng \<Rightarrow> (error + bool) \<times> rng" where
  "rounds ar A B C n 0 g = (Inr True, g)"
| "rounds ar A B C n (Suc k) g =
     (case randint 0 2 n g of
        (Inl e, g') \<Rightarrow> (Inl e, g')
      | (Inr X, g') \<Rightarrow>
          (case residual ar A B C (map real X) of
             Inl e \<Rightarrow> (Inl e, g')
           | Inr res \<Rightarrow> if any res then (Inr False, g') else rounds ar A B C n k g'))"

definition is_correct_mult :: "arithmetic \<Rightarrow> matrix \<Rightarrow> matrix \<Rightarrow> matrix \<Rightarrow> int \<Rightarrow> rng \<Rightarrow> (error + bool) \<times> rng" where
  "is_correct_mult ar A B C k g = rounds ar A B C (length A) (nat k) g"

section \<open>The case generator\<close>

definition make_test :: "arithmetic \<Rightarrow> nat \<Rightarrow> rng \<Rightarrow> (error + matrix \<times> matrix \<times> matrix) \<times> rng" where
  "make_test ar n g =
     (let (A, g1) = random_matrix n g;
          (B, g2) = random_matrix n g1
      in case matmul ar A B of
           Inl e \<Rightarrow> (Inl e, g2)
         | Inr correct \<Rightarrow>
             (let incorrect = correct
              in case randint 0 n 2 g2 of
                   (Inl e, g3) \<Rightarrow> (Inl e, g3)
                 | (Inr ij, g3) \<Rightarrow>
                     (let i = ij ! 0; j = ij ! 1; (r, g4) = random g3
                      in (Inr (A, B, incorrect[i := (incorrect ! i)[j := add ar (incorrect ! i ! j) r]]),
                          g4))))"

section \<open>The experiment\<close>

text \<open>One pass through the body of the inner loop: an instance, and the two verdicts on it.\<close>

definition trial :: "arithmetic \<Rightarrow> nat \<Rightarrow> rng \<Rightarrow> (error + bool \<times> bool) \<times> rng" where
  "trial ar n g =
     (case make_test ar n g of
        (Inl e, g1) \<Rightarrow> (Inl e, g1)
      | (Inr (A, B, C), g1) \<Rightarrow>
          (case is_correct_mult ar A B C 1 g1 of
             (Inl e, g2) \<Rightarrow> (Inl e, g2)
           | (Inr v1, g2) \<Rightarrow>
               (case is_correct_mult ar A B C 2 g2 of
                  (Inl e, g3) \<Rightarrow> (Inl e, g3)
                | (Inr v2, g3) \<Rightarrow> (Inr (v1, v2), g3))))"

text \<open>The inner loop \<open>for _ in range(10_000)\<close>, with the number of trials as a parameter.\<close>

fun trials :: "arithmetic \<Rightarrow> nat \<Rightarrow> nat \<Rightarrow> nat \<times> nat \<Rightarrow> rng \<Rightarrow> (error + nat \<times> nat) \<times> rng" where
  "trials ar n 0 (good_answers, good_answers_with_k2) g =
     (Inr (good_answers, good_answers_with_k2), g)"
| "trials ar n (Suc t) (good_answers, good_answers_with_k2) g =
     (case trial ar n g of
        (Inl e, g') \<Rightarrow> (Inl e, g')
      | (Inr (v1, v2), g') \<Rightarrow>
          trials ar n t (good_answers + (if \<not> v1 then 1 else 0),
                      good_answers_with_k2 + (if \<not> v2 then 1 else 0)) g')"

text \<open>The outer loop \<open>for n in range(lo, hi+1)\<close> over the list of dimensions.\<close>

fun sweep :: "arithmetic \<Rightarrow> nat list \<Rightarrow> nat \<Rightarrow> nat list \<times> nat list \<Rightarrow> rng \<Rightarrow> (error + nat list \<times> nat list) \<times> rng" where
  "sweep ar [] T (good_counts, good_counts_with_k2) g =
     (Inr (good_counts, good_counts_with_k2), g)"
| "sweep ar (n # ns) T (good_counts, good_counts_with_k2) g =
     (case trials ar n T (0, 0) g of
        (Inl e, g') \<Rightarrow> (Inl e, g')
      | (Inr (good_answers, good_answers_with_k2), g') \<Rightarrow>
          sweep ar ns T (good_counts @ [good_answers],
                      good_counts_with_k2 @ [good_answers_with_k2]) g')"

definition run_experiment :: "arithmetic \<Rightarrow> nat \<Rightarrow> nat \<Rightarrow> nat \<Rightarrow> rng \<Rightarrow> (error + nat list \<times> nat list) \<times> rng" where
  "run_experiment ar lo hi T g = sweep ar [lo..<hi + 1] T ([], []) g"

section \<open>Notions used to state the properties\<close>

text \<open>The \<open>i\<close>-th vector (counting from 0) that a call with \<open>n = A.shape[0]\<close> draws from the
  generator state \<open>g\<close>, if its loop gets that far: \<open>np.random.randint(0, 2, (n,))\<close>.\<close>

definition draw :: "nat \<Rightarrow> nat \<Rightarrow> rng \<Rightarrow> vec" where
  "draw n i g = map (\<lambda>r. real (r mod 2)) (stake n (sdrop (i * n) g))"

text \<open>The residual of \<open>X\<close> is computed without error and all its entries are zero.\<close>

definition zero_residual :: "arithmetic \<Rightarrow> matrix \<Rightarrow> matrix \<Rightarrow> matrix \<Rightarrow> vec \<Rightarrow> bool" where
  "zero_residual ar A B C X = (case residual ar A B C X of Inl e \<Rightarrow> False | Inr res \<Rightarrow> \<not> any res)"

text \<open>The residual of \<open>X\<close> is computed without error and has an entry that is not zero.\<close>

definition nonzero_residual :: "arithmetic \<Rightarrow> matrix \<Rightarrow> matrix \<Rightarrow> matrix \<Rightarrow> vec \<Rightarrow> bool" where
  "nonzero_residual ar A B C X = (case residual ar A B C X of Inl e \<Rightarrow> False | Inr res \<Rightarrow> any res)"

text \<open>The residual formed from the full product: \<open>(A @ B) @ X - C @ X\<close>.\<close>

definition naive_residual :: "arithmetic \<Rightarrow> matrix \<Rightarrow> matrix \<Rightarrow> matrix \<Rightarrow> vec \<Rightarrow> error + vec" where
  "naive_residual ar A B C X =
     (case matmul ar A B of Inl e \<Rightarrow> Inl e | Inr AB \<Rightarrow>
      (case matvec ar AB X of Inl e \<Rightarrow> Inl e | Inr ABX \<Rightarrow>
       (case matvec ar C X of Inl e \<Rightarrow> Inl e | Inr CX \<Rightarrow> vsub ar ABX CX)))"

text \<open>\<open>P - C\<close> for two-dimensional arrays of one shape, and \<open>(A @ B - C) @ X\<close>.\<close>

definition msub :: "arithmetic \<Rightarrow> matrix \<Rightarrow> matrix \<Rightarrow> matrix" where
  "msub ar P C = map2 (map2 (sub ar)) P C"

definition difference_residual :: "arithmetic \<Rightarrow> matrix \<Rightarrow> matrix \<Rightarrow> matrix \<Rightarrow> vec \<Rightarrow> error + vec" where
  "difference_residual ar A B C X =
     (case matmul ar A B of Inl e \<Rightarrow> Inl e | Inr AB \<Rightarrow> matvec ar (msub ar AB C) X)"

text \<open>The test a tolerance policy would make: some entry of the residual exceeds \<open>tol\<close> in
  magnitude.\<close>

definition any_beyond :: "real \<Rightarrow> vec \<Rightarrow> bool" where
  "any_beyond tol v = list_ex (\<lambda>x. \<bar>x\<bar> > tol) v"

text \<open>The outcomes of \<open>T\<close> successive trials of dimension \<open>n\<close> from the generator state \<open>g\<close>:
  for each trial the verdict with \<open>k = 1\<close> and the verdict with \<open>k = 2\<close>.\<close>

fun verdicts :: "arithmetic \<Rightarrow> nat \<Rightarrow> nat \<Rightarrow> rng \<Rightarrow> (bool \<times> bool) list" where
  "verdicts ar n 0 g = []"
| "verdicts ar n (Suc t) g =
     (case trial ar n g of (Inl e, g') \<Rightarrow> [] | (Inr v, g') \<Rightarrow> v # verdicts ar n t g')"

text \<open>The generator state after \<open>T\<close> trials of dimension \<open>n\<close>, and after \<open>T\<close> trials of each
  dimension of a list.\<close>

fun after_trials :: "arithmetic \<Rightarrow> nat \<Rightarrow> nat \<Rightarrow> rng \<Rightarrow> rng" where
  "after_trials ar n 0 g = g"
| "after_trials ar n (Suc t) g = after_trials ar n t (snd (trial ar n g))"

fun after_dims :: "arithmetic \<Rightarrow> nat list \<Rightarrow> nat \<Rightarrow> rng \<Rightarrow> rng" where
  "after_dims ar [] T g = g"
| "after_dims ar (n # ns) T g = after_dims ar ns T (after_trials ar n T g)"

text \<open>The number of trials in which the verifier returned \<open>False\<close>, for \<open>k = 1\<close> and for
  \<open>k = 2\<close>.\<close>

definition detected :: "(bool \<times> bool) list \<Rightarrow> nat" where
  "detected vs = length (filter (\<lambda>(v1, v2). \<not> v1) vs)"

definition detected_with_k2 :: "(bool \<times> bool) list \<Rightarrow> nat" where
  "detected_with_k2 vs = length (filter (\<lambda>(v1, v2). \<not> v2) vs)"

text \<open>The vectors of \<open>{0,1}^n\<close>, the possible outcomes of \<open>np.random.randint(0, 2, (n,))\<close>,
  and those among them whose residual is zero.\<close>

definition binary_vectors :: "nat \<Rightarrow> nat list list" where
  "binary_vectors n = List.n_lists n [0, 1]"

definition accepted_vectors :: "arithmetic \<Rightarrow> matrix \<Rightarrow> matrix \<Rightarrow> matrix \<Rightarrow> nat \<Rightarrow> nat list list" where
  "accepted_vectors ar A B C n =
     filter (\<lambda>X. zero_residual ar A B C (map real X)) (binary_vectors n)"

text \<open>A call with \<open>k\<close> repetitions reads at most \<open>k * n\<close> numbers of the generator. Among the
  outcomes of these numbers, each 0 or 1, those for which the call returns \<open>True\<close>.\<close>

definition accepted_tapes :: "arithmetic \<Rightarrow> matrix \<Rightarrow> matrix \<Rightarrow> matrix \<Rightarrow> int \<Rightarrow> rng \<Rightarrow> nat list list" where
  "accepted_tapes ar A B C k g =
     filter (\<lambda>bs. fst (is_correct_mult ar A B C k (bs @- g)) = Inr True)
       (binary_vectors (nat k * length A))"

section \<open>Rounding to binary64\<close>

lemma round_even_of_int [simp]: "round_even (of_int n) = n"
  by (simp add: round_even_def)

lemma bitlen_eqI:
  assumes "2 ^ j \<le> n" and "n < 2 ^ Suc j"
  shows "bitlen n = int j + 1"
proof (rule antisym)
  show "bitlen n \<le> int j + 1"
    using assms(2) by (simp add: bitlen_le_iff_power nat_add_distrib)
  show "int j + 1 \<le> bitlen n"
    using assms(1) by (simp add: bitlen_ge_iff_power nat_add_distrib)
qed

lemma exponent_eqI:
  assumes lo: "2 powi k \<le> \<bar>x\<bar>" and hi: "\<bar>x\<bar> < 2 powi (k + 1)"
  shows "exponent x = k"
proof (cases "0 \<le> k")
  case True
  define j where "j = nat k"
  have k: "k = int j" using True by (simp add: j_def)
  have lo': "2 ^ j \<le> \<bar>x\<bar>" and hi': "\<bar>x\<bar> < 2 ^ Suc j"
    using lo hi unfolding k by (simp_all add: power_int_add)
  have one: "1 \<le> \<bar>x\<bar>"
    using lo' by (rule order_trans [rotated]) simp
  have "(2::int) ^ j \<le> \<lfloor>\<bar>x\<bar>\<rfloor>"
    using lo' by (simp add: le_floor_iff)
  moreover have "\<lfloor>\<bar>x\<bar>\<rfloor> < 2 ^ Suc j"
    using hi' by (simp add: floor_less_iff)
  ultimately have "bitlen \<lfloor>\<bar>x\<bar>\<rfloor> = int j + 1"
    by (rule bitlen_eqI)
  then show ?thesis
    using one by (simp add: exponent_def k)
next
  case False
  define j where "j = nat (- k) - 1"
  have k: "k = - int (Suc j)" using False by (simp add: j_def)
  have k1: "k + 1 = - int j" using k by simp
  have p1: "(2::real) powi k = 1 / 2 ^ Suc j"
    unfolding k by (simp only: power_int_minus_divide power_int_of_nat)
  have p2: "(2::real) powi (k + 1) = 1 / 2 ^ j"
    unfolding k1 by (simp only: power_int_minus_divide power_int_of_nat)
  have pos: "0 < \<bar>x\<bar>"
    using lo unfolding p1 by (rule less_le_trans [rotated]) simp
  have lt1: "\<bar>x\<bar> < 1"
  proof -
    have "(1::real) / 2 ^ j \<le> 1" by simp
    with hi show ?thesis unfolding p2 by linarith
  qed
  have up: "1 / \<bar>x\<bar> \<le> 2 ^ Suc j"
    using lo pos unfolding p1 by (simp add: field_simps)
  have dn: "2 ^ j < 1 / \<bar>x\<bar>"
    using hi pos unfolding p2 by (simp add: field_simps)
  have "\<lceil>1 / \<bar>x\<bar>\<rceil> \<le> 2 ^ Suc j"
    using up by (simp add: ceiling_le_iff)
  then have a: "\<lceil>1 / \<bar>x\<bar>\<rceil> - 1 < 2 ^ Suc j" by simp
  have "(2::int) ^ j < \<lceil>1 / \<bar>x\<bar>\<rceil>"
    using dn by (simp add: less_ceiling_iff)
  then have b: "(2::int) ^ j \<le> \<lceil>1 / \<bar>x\<bar>\<rceil> - 1" by simp
  have "bitlen (\<lceil>1 / \<bar>x\<bar>\<rceil> - 1) = int j + 1"
    using b a by (rule bitlen_eqI)
  then show ?thesis
    using lt1 by (simp add: exponent_def k)
qed

lemma binary64_eval:
  assumes "2 powi k \<le> \<bar>x\<bar>" and "\<bar>x\<bar> < 2 powi (k + 1)"
  shows "binary64 x = of_int (round_even (x / 2 powi (k - 52))) * 2 powi (k - 52)"
proof -
  have "0 < \<bar>x\<bar>" using assms(1) by (rule less_le_trans [rotated]) simp
  then have "x \<noteq> 0" by simp
  then show ?thesis
    by (simp add: binary64_def exponent_eqI [OF assms])
qed

lemma binary64_representable:
  assumes m: "\<bar>m\<bar> < 2 ^ 53"
  shows "binary64 (of_int m * 2 powi e) = of_int m * 2 powi e"
proof (cases "m = 0")
  case True
  then show ?thesis by (simp add: binary64_def)
next
  case False
  define b where "b = bitlen \<bar>m\<bar>"
  have mpos: "0 < \<bar>m\<bar>" using False by simp
  have b1: "1 \<le> b"
    using mpos bitlen_eq_zero_iff [of "\<bar>m\<bar>"] bitlen_nonneg [of "\<bar>m\<bar>"] by (simp add: b_def)
  have b53: "b \<le> 53"
    using m by (simp add: b_def bitlen_le_iff_power)
  have bnd: "2 ^ nat (b - 1) \<le> \<bar>m\<bar>" "\<bar>m\<bar> < 2 ^ nat b"
    using bitlen_bounds [OF mpos] by (simp_all add: b_def)
  let ?x = "of_int m * (2::real) powi e"
  let ?k = "b - 1 + e"
  have absx: "\<bar>?x\<bar> = of_int \<bar>m\<bar> * 2 powi e"
    by (simp add: abs_mult)
  have "(2::real) powi ?k = 2 powi (b - 1) * 2 powi e"
    by (simp add: power_int_add)
  also have "(2::real) powi (b - 1) = 2 ^ nat (b - 1)"
    using b1 by (simp add: power_int_nonneg_exp)
  also have "2 ^ nat (b - 1) * (2::real) powi e \<le> of_int \<bar>m\<bar> * 2 powi e"
  proof (rule mult_right_mono)
    have "real_of_int (2 ^ nat (b - 1)) \<le> real_of_int \<bar>m\<bar>"
      using bnd(1) by (simp only: of_int_le_iff)
    then show "(2::real) ^ nat (b - 1) \<le> of_int \<bar>m\<bar>" by simp
  qed simp
  finally have lo: "2 powi ?k \<le> \<bar>?x\<bar>" unfolding absx .
  have "of_int \<bar>m\<bar> * (2::real) powi e < 2 ^ nat b * 2 powi e"
  proof (rule mult_strict_right_mono)
    have "real_of_int \<bar>m\<bar> < real_of_int (2 ^ nat b)"
      using bnd(2) by (simp only: of_int_less_iff)
    then show "real_of_int \<bar>m\<bar> < 2 ^ nat b" by simp
  qed simp
  also have "(2::real) ^ nat b = 2 powi b"
    using b1 by (simp add: power_int_nonneg_exp)
  also have "(2::real) powi b * 2 powi e = 2 powi (?k + 1)"
    by (simp add: power_int_add [symmetric])
  finally have hi: "\<bar>?x\<bar> < 2 powi (?k + 1)" unfolding absx .
  have "?x / 2 powi (?k - 52) = of_int m * (2 powi e * 2 powi (- (?k - 52)))"
    by (simp only: power_int_minus divide_inverse mult.assoc)
  also have "(2::real) powi e * 2 powi (- (?k - 52)) = 2 powi (53 - b)"
    by (simp add: power_int_add [symmetric])
  also have "(2::real) powi (53 - b) = of_int (2 ^ nat (53 - b))"
    using b53 by (simp add: power_int_nonneg_exp)
  finally have q: "?x / 2 powi (?k - 52) = of_int (m * 2 ^ nat (53 - b))"
    by simp
  have "binary64 ?x = of_int (m * 2 ^ nat (53 - b)) * 2 powi (?k - 52)"
    by (simp only: binary64_eval [OF lo hi] q round_even_of_int)
  also have "\<dots> = of_int m * (2 powi (53 - b) * 2 powi (?k - 52))"
    using b53 by (simp add: power_int_nonneg_exp)
  also have "(2::real) powi (53 - b) * 2 powi (?k - 52) = 2 powi e"
    by (simp add: power_int_add [symmetric])
  finally show ?thesis .
qed

text \<open>Numbers that binary64 represents are not changed by rounding.\<close>

lemma binary64_0 [simp]: "binary64 0 = 0"
  by (simp add: binary64_def)

lemma binary64_of_int: "\<bar>m\<bar> < 2 ^ 53 \<Longrightarrow> binary64 (of_int m) = of_int m"
  using binary64_representable [of m 0] by simp

lemma binary64_1 [simp]: "binary64 1 = 1"
  using binary64_of_int [of 1] by simp

lemma binary64_neg_1 [simp]: "binary64 (- 1) = - 1"
  using binary64_of_int [of "- 1"] by simp

lemma binary64_numeral [simp]:
  "(numeral n :: int) < 2 ^ 53 \<Longrightarrow> binary64 (numeral n) = numeral n"
  using binary64_of_int [of "numeral n"] by simp

lemma binary64_neg_numeral [simp]:
  "(numeral n :: int) < 2 ^ 53 \<Longrightarrow> binary64 (- numeral n) = - numeral n"
  using binary64_of_int [of "- numeral n"] by simp

lemma binary64_dyadic: "\<bar>m\<bar> < 2 ^ 53 \<Longrightarrow> binary64 (of_int m / 2 ^ j) = of_int m / 2 ^ j"
  using binary64_representable [of m "- int j"]
  by (simp add: power_int_minus_divide)

section \<open>Linear algebra on lists\<close>

lemma dot_sum: "length xs = length ys \<Longrightarrow> dot xs ys = (\<Sum>i<length xs. xs ! i * ys ! i)"
proof -
  assume len: "length xs = length ys"
  have "dot xs ys = (\<Sum>i = 0..<length (map2 (*) xs ys). map2 (*) xs ys ! i)"
    unfolding dot_def by (rule sum_list_sum_nth)
  also have "\<dots> = (\<Sum>i = 0..<length xs. xs ! i * ys ! i)"
    using len by (intro sum.cong) auto
  finally show ?thesis by (simp add: atLeast0LessThan)
qed

lemma square_length: "square n M \<Longrightarrow> length M = n"
  by (simp add: square_def)

lemma square_row: "square n M \<Longrightarrow> i < n \<Longrightarrow> length (M ! i) = n"
  by (simp add: square_def list_all_length)

lemma square_row_mem: "square n M \<Longrightarrow> row \<in> set M \<Longrightarrow> length row = n"
  by (simp add: square_def list_all_iff)

lemma ncols_square: "square n M \<Longrightarrow> ncols M = n"
  by (cases M) (auto simp: square_def ncols_def)

lemma matvec_square:
  "square n M \<Longrightarrow> length X = n \<Longrightarrow> matvec ar M X = Inr (map (\<lambda>row. inner ar row X) M)"
  by (simp add: matvec_def ncols_square)

lemma matmul_square:
  "square n A \<Longrightarrow> square n B \<Longrightarrow>
   matmul ar A B = Inr (map (\<lambda>row. map (\<lambda>j. inner ar row (column B j)) [0..<n]) A)"
  by (simp add: matmul_def ncols_square square_length)

lemma residual_square:
  assumes "square n A" "square n B" "square n C" "length X = n"
  shows "residual ar A B C X =
    Inr (map2 (sub ar) (map (\<lambda>row. inner ar row (map (\<lambda>r. inner ar r X) B)) A)
                       (map (\<lambda>row. inner ar row X) C))"
  using assms
  by (simp add: residual_def matvec_square square_length vsub_def)

text \<open>The same in exact arithmetic.\<close>

lemma inner_exact [simp]: "inner exact = dot"
  by (simp add: exact_def)

lemma sub_exact [simp]: "sub exact = (-)"
  by (simp add: exact_def)

lemma add_exact [simp]: "add exact = (+)"
  by (simp add: exact_def)

lemma matvec_square_exact:
  "square n M \<Longrightarrow> length X = n \<Longrightarrow> matvec exact M X = Inr (map (\<lambda>row. dot row X) M)"
  by (simp add: matvec_square)

lemma matmul_square_exact:
  "square n A \<Longrightarrow> square n B \<Longrightarrow>
   matmul exact A B = Inr (map (\<lambda>row. map (\<lambda>j. dot row (column B j)) [0..<n]) A)"
  by (simp add: matmul_square)

lemma residual_square_exact:
  assumes "square n A" "square n B" "square n C" "length X = n"
  shows "residual exact A B C X =
    Inr (map2 (-) (map (\<lambda>row. dot row (map (\<lambda>r. dot r X) B)) A) (map (\<lambda>row. dot row X) C))"
  by (simp add: residual_square [OF assms])

text \<open>Associativity, row by row: a row of \<open>A @ B\<close> times \<open>X\<close> is the row of \<open>A\<close> times
  \<open>B @ X\<close>.\<close>

lemma dot_matmul_row:
  assumes row: "length row = n" and B: "square n B" and X: "length X = n"
  shows "dot (map (\<lambda>j. dot row (column B j)) [0..<n]) X = dot row (map (\<lambda>r. dot r X) B)"
proof -
  have lenB: "length B = n" using B by (rule square_length)
  have "dot (map (\<lambda>j. dot row (column B j)) [0..<n]) X
      = (\<Sum>j<n. dot row (column B j) * X ! j)"
    using X by (simp add: dot_sum)
  also have "\<dots> = (\<Sum>j<n. (\<Sum>l<n. row ! l * B ! l ! j) * X ! j)"
    by (intro sum.cong refl) (simp add: dot_sum column_def row lenB)
  also have "\<dots> = (\<Sum>j<n. \<Sum>l<n. row ! l * (B ! l ! j * X ! j))"
    by (simp add: sum_distrib_right mult.assoc)
  also have "\<dots> = (\<Sum>l<n. \<Sum>j<n. row ! l * (B ! l ! j * X ! j))"
    by (rule sum.swap)
  also have "\<dots> = (\<Sum>l<n. row ! l * (\<Sum>j<n. B ! l ! j * X ! j))"
    by (simp add: sum_distrib_left)
  also have "\<dots> = (\<Sum>l<n. row ! l * dot (B ! l) X)"
    using X by (intro sum.cong refl) (simp add: dot_sum square_row [OF B])
  also have "\<dots> = dot row (map (\<lambda>r. dot r X) B)"
    by (simp add: dot_sum row lenB)
  finally show ?thesis .
qed

lemma matmul_rows_square:
  "square n A \<Longrightarrow> square n (map (\<lambda>row. map (f row) [0..<n]) A)"
  by (simp add: square_def list_all_iff)

lemma matmul_Inr_square:
  "square n A \<Longrightarrow> square n B \<Longrightarrow> matmul ar A B = Inr P \<Longrightarrow> square n P"
  using matmul_rows_square [of n A "\<lambda>row j. inner ar row (column B j)"]
  by (auto simp: matmul_square)

lemma matvec_matmul:
  assumes A: "square n A" and B: "square n B" and X: "length X = n"
  shows "map (\<lambda>row. dot row X) (map (\<lambda>row. map (\<lambda>j. dot row (column B j)) [0..<n]) A)
       = map (\<lambda>row. dot row (map (\<lambda>r. dot r X) B)) A"
  using dot_matmul_row [OF square_row_mem [OF A] B X] by simp

lemma naive_residual_square:
  assumes A: "square n A" and B: "square n B" and C: "square n C" and X: "length X = n"
  shows "naive_residual exact A B C X = residual exact A B C X"
proof -
  let ?P = "map (\<lambda>row. map (\<lambda>j. dot row (column B j)) [0..<n]) A"
  have P: "square n ?P" using A by (rule matmul_rows_square)
  have "naive_residual exact A B C X
      = vsub exact (map (\<lambda>row. dot row X) ?P) (map (\<lambda>row. dot row X) C)"
    by (simp only: naive_residual_def matmul_square_exact [OF A B] matvec_square_exact [OF P X]
        matvec_square_exact [OF C X] sum.case)
  also have "\<dots> = vsub exact (map (\<lambda>row. dot row (map (\<lambda>r. dot r X) B)) A) (map (\<lambda>row. dot row X) C)"
    by (simp only: matvec_matmul [OF A B X])
  also have "\<dots> = residual exact A B C X"
    using A C by (simp add: residual_square_exact [OF A B C X] vsub_def square_length)
  finally show ?thesis .
qed

lemma dot_map2_minus:
  "length p = length X \<Longrightarrow> length c = length X \<Longrightarrow>
   dot (map2 (-) p c) X = dot p X - dot c X"
  by (simp add: dot_sum left_diff_distrib sum_subtractf)

lemma msub_square: "square n P \<Longrightarrow> square n C \<Longrightarrow> square n (msub ar P C)"
  by (auto simp: square_def msub_def list_all_length)

lemma matvec_msub:
  assumes P: "square n P" and C: "square n C" and X: "length X = n"
  shows "matvec exact (msub exact P C) X = Inr (map2 (-) (map (\<lambda>row. dot row X) P) (map (\<lambda>row. dot row X) C))"
proof -
  have "map (\<lambda>row. dot row X) (msub exact P C)
      = map2 (-) (map (\<lambda>row. dot row X) P) (map (\<lambda>row. dot row X) C)"
    using P C X
    by (intro nth_equalityI) (simp_all add: msub_def square_def list_all_length dot_map2_minus)
  then show ?thesis
    by (simp add: matvec_square_exact [OF msub_square [OF P C] X])
qed

lemma difference_residual_square:
  assumes A: "square n A" and B: "square n B" and C: "square n C" and X: "length X = n"
  shows "difference_residual exact A B C X = residual exact A B C X"
proof -
  let ?P = "map (\<lambda>row. map (\<lambda>j. dot row (column B j)) [0..<n]) A"
  have P: "square n ?P" using A by (rule matmul_rows_square)
  have "difference_residual exact A B C X
      = Inr (map2 (-) (map (\<lambda>row. dot row X) ?P) (map (\<lambda>row. dot row X) C))"
    by (simp only: difference_residual_def matmul_square_exact [OF A B] matvec_msub [OF P C X] sum.case)
  also have "\<dots> = Inr (map2 (-) (map (\<lambda>row. dot row (map (\<lambda>r. dot r X) B)) A)
                                  (map (\<lambda>row. dot row X) C))"
    by (simp only: matvec_matmul [OF A B X])
  also have "\<dots> = residual exact A B C X"
    by (simp only: residual_square_exact [OF A B C X])
  finally show ?thesis .
qed

section \<open>The loop of the verifier\<close>

lemma length_draw: "length (draw n i g) = n"
  by (simp add: draw_def)

lemma draw_Suc: "draw n (Suc i) g = draw n i (sdrop n g)"
  by (simp add: draw_def add.commute)

lemma rounds_Suc:
  "rounds ar A B C n (Suc k) g =
     (case residual ar A B C (draw n 0 g) of
        Inl e \<Rightarrow> (Inl e, sdrop n g)
      | Inr res \<Rightarrow> if any res then (Inr False, sdrop n g) else rounds ar A B C n k (sdrop n g))"
  by (simp add: randint_def draw_def comp_def)

lemma rounds_all_zero:
  "(\<forall>i<k. zero_residual ar A B C (draw n i g)) \<Longrightarrow>
   rounds ar A B C n k g = (Inr True, sdrop (k * n) g)"
proof (induction k arbitrary: g)
  case 0
  show ?case by simp
next
  case (Suc k)
  have first: "zero_residual ar A B C (draw n 0 g)" using Suc.prems by blast
  have rest: "\<forall>i<k. zero_residual ar A B C (draw n i (sdrop n g))"
    using Suc.prems by (auto simp: draw_Suc [symmetric])
  have "rounds ar A B C n (Suc k) g = rounds ar A B C n k (sdrop n g)"
    using first by (simp only: rounds_Suc) (simp add: zero_residual_def split: sum.splits)
  also have "\<dots> = (Inr True, sdrop (k * n) (sdrop n g))"
    using rest by (rule Suc.IH)
  finally show ?case by (simp add: add.commute)
qed

lemma rounds_first_nonzero:
  "i < k \<Longrightarrow> (\<forall>j<i. zero_residual ar A B C (draw n j g)) \<Longrightarrow>
   nonzero_residual ar A B C (draw n i g) \<Longrightarrow>
   rounds ar A B C n k g = (Inr False, sdrop (Suc i * n) g)"
proof (induction k arbitrary: g i)
  case 0
  then show ?case by simp
next
  case (Suc k)
  show ?case
  proof (cases i)
    case 0
    with Suc.prems show ?thesis
      by (simp only: rounds_Suc) (simp add: nonzero_residual_def split: sum.splits)
  next
    case (Suc i')
    have first: "zero_residual ar A B C (draw n 0 g)" using Suc.prems Suc by blast
    have lt: "i' < k" using Suc.prems Suc by simp
    have rest: "\<forall>j<i'. zero_residual ar A B C (draw n j (sdrop n g))"
      using Suc.prems Suc by (auto simp: draw_Suc [symmetric])
    have nz: "nonzero_residual ar A B C (draw n i' (sdrop n g))"
      using Suc.prems Suc by (simp add: draw_Suc)
    have "rounds ar A B C n (Suc k) g = rounds ar A B C n k (sdrop n g)"
      using first by (simp only: rounds_Suc) (simp add: zero_residual_def split: sum.splits)
    also have "\<dots> = (Inr False, sdrop (Suc i' * n) (sdrop n g))"
      using lt rest nz by (rule Suc.IH)
    finally show ?thesis using Suc by (simp add: add.commute)
  qed
qed

lemma rounds_first_error:
  "i < k \<Longrightarrow> (\<forall>j<i. zero_residual ar A B C (draw n j g)) \<Longrightarrow>
   residual ar A B C (draw n i g) = Inl e \<Longrightarrow>
   rounds ar A B C n k g = (Inl e, sdrop (Suc i * n) g)"
proof (induction k arbitrary: g i)
  case 0
  then show ?case by simp
next
  case (Suc k)
  show ?case
  proof (cases i)
    case 0
    with Suc.prems show ?thesis
      by (simp only: rounds_Suc) simp
  next
    case (Suc i')
    have first: "zero_residual ar A B C (draw n 0 g)" using Suc.prems Suc by blast
    have lt: "i' < k" using Suc.prems Suc by simp
    have rest: "\<forall>j<i'. zero_residual ar A B C (draw n j (sdrop n g))"
      using Suc.prems Suc by (auto simp: draw_Suc [symmetric])
    have nz: "residual ar A B C (draw n i' (sdrop n g)) = Inl e"
      using Suc.prems Suc by (simp add: draw_Suc)
    have "rounds ar A B C n (Suc k) g = rounds ar A B C n k (sdrop n g)"
      using first by (simp only: rounds_Suc) (simp add: zero_residual_def split: sum.splits)
    also have "\<dots> = (Inl e, sdrop (Suc i' * n) (sdrop n g))"
      using lt rest nz by (rule Suc.IH)
    finally show ?thesis using Suc by (simp add: add.commute)
  qed
qed

lemma residual_total:
  assumes "square n A" "square n B" "square n C" "length X = n"
  shows "nonzero_residual ar A B C X \<longleftrightarrow> \<not> zero_residual ar A B C X"
  by (simp add: nonzero_residual_def zero_residual_def residual_square [OF assms])

text \<open>When \<open>C\<close> is the product, every residual is zero.\<close>

lemma zero_residual_product:
  assumes A: "square n A" and B: "square n B" and P: "matmul exact A B = Inr C" and X: "length X = n"
  shows "zero_residual exact A B C X"
proof -
  have C: "square n C" using A B P by (rule matmul_Inr_square)
  have "residual exact A B C X = naive_residual exact A B C X"
    by (simp only: naive_residual_square [OF A B C X])
  also have "\<dots> = vsub exact (map (\<lambda>row. dot row X) C) (map (\<lambda>row. dot row X) C)"
    by (simp only: naive_residual_def P matvec_square_exact [OF C X] sum.case)
  also have "\<dots> = Inr (map (\<lambda>row. 0) C)"
    by (simp add: vsub_def zip_same_conv_map comp_def)
  finally show ?thesis
    by (simp add: zero_residual_def any_def list_ex_iff)
qed

section \<open>Properties of the verifier\<close>

text \<open>
  C10. For \<open>n\<close>-by-\<open>n\<close> matrices \<open>A\<close>, \<open>B\<close>, \<open>C\<close> and a vector \<open>X\<close> of length \<open>n\<close>, in exact
  arithmetic, the residual the verifier computes, \<open>A @ (B @ X) - C @ X\<close>, is computed without
  error and equals both \<open>(A @ B) @ X - C @ X\<close> and \<open>(A @ B - C) @ X\<close>; so the two matrix-vector
  products decide the same zero/nonzero test as the residual formed from the full product.
\<close>

theorem residual_equivalence:
  assumes "square n A" and "square n B" and "square n C" and "length X = n"
  shows "residual exact A B C X = naive_residual exact A B C X
       \<and> residual exact A B C X = difference_residual exact A B C X
       \<and> (\<exists>res. residual exact A B C X = Inr res \<and> length res = n)
       \<and> (zero_residual exact A B C X \<longleftrightarrow>
            (case naive_residual exact A B C X of Inl e \<Rightarrow> False | Inr res \<Rightarrow> \<not> any res))"
proof -
  have 1: "naive_residual exact A B C X = residual exact A B C X"
    using assms by (rule naive_residual_square)
  have 2: "difference_residual exact A B C X = residual exact A B C X"
    using assms by (rule difference_residual_square)
  have 3: "\<exists>res. residual exact A B C X = Inr res \<and> length res = n"
    using assms(1,3) by (simp add: residual_square_exact [OF assms] square_length)
  show ?thesis
    using 3 by (simp add: 1 2 zero_residual_def)
qed

theorem residual_equivalence_witness:
  "square 2 [[1, 0], [0, 1]] \<and> square 2 [[2, 3], [4, 5]] \<and> square 2 [[2, 3], [4, 6]]
   \<and> length [0, 1 :: real] = 2
   \<and> residual exact [[1, 0], [0, 1]] [[2, 3], [4, 5]] [[2, 3], [4, 6]] [0, 1] = Inr [0, -1]
   \<and> naive_residual exact [[1, 0], [0, 1]] [[2, 3], [4, 5]] [[2, 3], [4, 6]] [0, 1] = Inr [0, -1]
   \<and> difference_residual exact [[1, 0], [0, 1]] [[2, 3], [4, 5]] [[2, 3], [4, 6]] [0, 1] = Inr [0, -1]"
proof -
  have sq: "square 2 [[1, 0], [0, 1]]" "square 2 [[2, 3], [4, 5]]" "square 2 [[2, 3], [4, 6]]"
    by (simp_all add: square_def)
  have len: "length [0, 1 :: real] = 2" by simp
  have res: "residual exact [[1, 0], [0, 1]] [[2, 3], [4, 5]] [[2, 3], [4, 6]] [0, 1] = Inr [0, -1]"
    by (simp add: residual_def matvec_def ncols_def dot_def vsub_def)
  have eq: "residual exact [[1, 0], [0, 1]] [[2, 3], [4, 5]] [[2, 3], [4, 6]] [0, 1]
              = naive_residual exact [[1, 0], [0, 1]] [[2, 3], [4, 5]] [[2, 3], [4, 6]] [0, 1]"
           "residual exact [[1, 0], [0, 1]] [[2, 3], [4, 5]] [[2, 3], [4, 6]] [0, 1]
              = difference_residual exact [[1, 0], [0, 1]] [[2, 3], [4, 5]] [[2, 3], [4, 6]] [0, 1]"
    using residual_equivalence [OF sq len] by blast+
  show ?thesis
    by (simp add: eq [symmetric] res sq)
qed

text \<open>In exact arithmetic a product is never rejected: when \<open>C\<close> is the product of the
  \<open>n\<close>-by-\<open>n\<close> matrices \<open>A\<close> and \<open>B\<close>, the call returns \<open>True\<close> whatever vectors are
  drawn.\<close>

lemma soundness_exact:
  assumes "square n A" and "square n B" and P: "matmul exact A B = Inr C"
  shows "fst (is_correct_mult exact A B C k g) = Inr True"
proof -
  have "\<forall>i<nat k. zero_residual exact A B C (draw (length A) i g)"
    using assms by (simp add: zero_residual_product square_length length_draw)
  then show ?thesis
    by (simp add: is_correct_mult_def rounds_all_zero)
qed

text \<open>
  C1 at an input where it fails. The entries of \<open>A\<close>, \<open>B\<close> and \<open>C\<close> are binary64 numbers and
  \<open>C\<close> is the product of \<open>A\<close> and \<open>B\<close>, exactly and as the program computes it. With
  \<open>X = [1, 1]\<close> the program rounds \<open>B @ X\<close> to \<open>1 + 2^-51\<close> and \<open>C @ X\<close> to \<open>3 + 2^-50\<close>, the
  residual has the entry \<open>2^-51\<close>, and the call returns \<open>False\<close> for a correct product.
\<close>

theorem rounding_rejects_product:
  "matmul exact [[3, 0], [0, 0]] [[1, 3 / 2 ^ 53], [0, 0]] = Inr [[3, 9 / 2 ^ 53], [0, 0]]
   \<and> matmul float64 [[3, 0], [0, 0]] [[1, 3 / 2 ^ 53], [0, 0]] = Inr [[3, 9 / 2 ^ 53], [0, 0]]
   \<and> residual float64 [[3, 0], [0, 0]] [[1, 3 / 2 ^ 53], [0, 0]] [[3, 9 / 2 ^ 53], [0, 0]] [1, 1]
       = Inr [1 / 2 ^ 51, 0]
   \<and> is_correct_mult float64 [[3, 0], [0, 0]] [[1, 3 / 2 ^ 53], [0, 0]] [[3, 9 / 2 ^ 53], [0, 0]] 1
         (1 ## 1 ## g) = (Inr False, g)"
proof -
  have f1: "binary64 (3 / 9007199254740992) = 3 / 9007199254740992"
    using binary64_dyadic [of 3 53] by simp
  have f2: "binary64 (9007199254740995 / 9007199254740992)
              = 2251799813685249 / 2251799813685248"
    using binary64_eval [of 0 "1 + 3 / 2 ^ 53"] by (simp add: round_even_def)
  have f3: "binary64 (6755399441055747 / 2251799813685248)
              = 6755399441055747 / 2251799813685248"
    using binary64_dyadic [of "3 * 2 ^ 51 + 3" 51] by simp
  have f4: "binary64 (9 / 9007199254740992) = 9 / 9007199254740992"
    using binary64_dyadic [of 9 53] by simp
  have f5: "binary64 (27021597764222985 / 9007199254740992)
              = 3377699720527873 / 1125899906842624"
    using binary64_eval [of 1 "3 + 9 / 2 ^ 53"] by (simp add: round_even_def)
  have f6: "binary64 (1 / 2251799813685248) = 1 / 2251799813685248"
    using binary64_dyadic [of 1 51] by simp
  have prod: "matmul exact [[3, 0], [0, 0]] [[1, 3 / 2 ^ 53], [0, 0]]
                = Inr [[3, 9 / 2 ^ 53], [0, 0]]"
    by (simp add: matmul_def ncols_def dot_def column_def)
  have prod64: "matmul float64 [[3, 0], [0, 0]] [[1, 3 / 2 ^ 53], [0, 0]]
                  = Inr [[3, 9 / 2 ^ 53], [0, 0]]"
    by (simp add: matmul_def ncols_def float64_def dot64_def column_def f4)
  have res: "residual float64 [[3, 0], [0, 0]] [[1, 3 / 2 ^ 53], [0, 0]] [[3, 9 / 2 ^ 53], [0, 0]]
               [1, 1] = Inr [1 / 2 ^ 51, 0]"
    by (simp add: residual_def matvec_def ncols_def float64_def dot64_def vsub_def
        f1 f2 f3 f4 f5 f6)
  have "randint 0 2 (length [[3, 0], [0, 0 :: real]]) (1 ## 1 ## g) = (Inr [1, 1], g)"
    by (simp add: randint_def)
  then have "is_correct_mult float64 [[3, 0], [0, 0]] [[1, 3 / 2 ^ 53], [0, 0]]
               [[3, 9 / 2 ^ 53], [0, 0]] 1 (1 ## 1 ## g) = (Inr False, g)"
    using res by (simp add: is_correct_mult_def any_def)
  then show ?thesis
    using prod prod64 res by (simp only: simp_thms)
qed

text \<open>
  C3. For \<open>n\<close>-by-\<open>n\<close> matrices, in every arithmetic, \<open>is_correct_mult A B C k\<close> returns \<open>False\<close>
  exactly when one of the \<open>k\<close> vectors it would draw has a residual with a nonzero entry; it
  then returns at the first such vector, having consumed exactly the vectors up to that one.
  It returns \<open>True\<close> exactly when all \<open>k\<close> residuals are zero, having drawn all \<open>k\<close> vectors.
\<close>

theorem early_exit:
  assumes "square n A" and "square n B" and "square n C"
  shows "(fst (is_correct_mult ar A B C k g) = Inr False
            \<longleftrightarrow> (\<exists>i<nat k. nonzero_residual ar A B C (draw n i g)))
       \<and> (fst (is_correct_mult ar A B C k g) = Inr True
            \<longleftrightarrow> (\<forall>i<nat k. zero_residual ar A B C (draw n i g)))
       \<and> (\<forall>i<nat k. nonzero_residual ar A B C (draw n i g)
              \<and> (\<forall>j<i. zero_residual ar A B C (draw n j g))
            \<longrightarrow> is_correct_mult ar A B C k g = (Inr False, sdrop (Suc i * n) g))
       \<and> ((\<forall>i<nat k. zero_residual ar A B C (draw n i g))
            \<longrightarrow> is_correct_mult ar A B C k g = (Inr True, sdrop (nat k * n) g))"
proof -
  have n: "length A = n" using assms(1) by (rule square_length)
  have tot: "nonzero_residual ar A B C (draw n i g) \<longleftrightarrow> \<not> zero_residual ar A B C (draw n i g)" for i
    using assms by (rule residual_total) (rule length_draw)
  have T: "is_correct_mult ar A B C k g = (Inr True, sdrop (nat k * n) g)"
    if "\<forall>i<nat k. zero_residual ar A B C (draw n i g)"
    using that by (simp add: is_correct_mult_def n rounds_all_zero)
  have F: "is_correct_mult ar A B C k g = (Inr False, sdrop (Suc i * n) g)"
    if "i < nat k" "nonzero_residual ar A B C (draw n i g)"
       "\<forall>j<i. zero_residual ar A B C (draw n j g)" for i
    using that unfolding is_correct_mult_def n by (intro rounds_first_nonzero) auto
  have ex: "\<exists>i<nat k. nonzero_residual ar A B C (draw n i g) \<and> (\<forall>j<i. zero_residual ar A B C (draw n j g))"
    if "\<not> (\<forall>i<nat k. zero_residual ar A B C (draw n i g))"
  proof -
    from that obtain i0 where i0: "i0 < nat k \<and> \<not> zero_residual ar A B C (draw n i0 g)" by blast
    define i where "i = (LEAST i. i < nat k \<and> \<not> zero_residual ar A B C (draw n i g))"
    have 1: "i < nat k \<and> \<not> zero_residual ar A B C (draw n i g)"
      unfolding i_def using i0 by (rule LeastI)
    have 2: "zero_residual ar A B C (draw n j g)" if "j < i" for j
      using not_less_Least [of j "\<lambda>i. i < nat k \<and> \<not> zero_residual ar A B C (draw n i g)"] that 1
      unfolding i_def by auto
    show ?thesis using 1 2 tot by blast
  qed
  have iffT: "fst (is_correct_mult ar A B C k g) = Inr True
            \<longleftrightarrow> (\<forall>i<nat k. zero_residual ar A B C (draw n i g))"
    using T ex F by (metis fst_conv sum.inject(2))
  have iffF: "fst (is_correct_mult ar A B C k g) = Inr False
            \<longleftrightarrow> (\<exists>i<nat k. nonzero_residual ar A B C (draw n i g))"
    using T ex F tot by (metis fst_conv sum.inject(2))
  show ?thesis using iffT iffF T F by blast
qed

theorem early_exit_witness:
  "square 2 [[1, 0], [0, 1]] \<and> square 2 [[2, 3], [4, 5]] \<and> square 2 [[2, 3], [4, 6]]
   \<and> (1::nat) < nat 2
   \<and> zero_residual float64 [[1, 0], [0, 1]] [[2, 3], [4, 5]] [[2, 3], [4, 6]]
        (draw 2 0 (1 ## 0 ## 0 ## 1 ## sconst 0))
   \<and> nonzero_residual float64 [[1, 0], [0, 1]] [[2, 3], [4, 5]] [[2, 3], [4, 6]]
        (draw 2 1 (1 ## 0 ## 0 ## 1 ## sconst 0))
   \<and> is_correct_mult float64 [[1, 0], [0, 1]] [[2, 3], [4, 5]] [[2, 3], [4, 6]] 2
        (1 ## 0 ## 0 ## 1 ## sconst 0) = (Inr False, sconst 0)"
proof -
  let ?g = "1 ## 0 ## 0 ## 1 ## sconst (0::nat)"
  have sq: "square 2 [[1, 0], [0, 1]]" "square 2 [[2, 3], [4, 5]]" "square 2 [[2, 3], [4, 6]]"
    by (simp_all add: square_def)
  have d0: "draw 2 0 ?g = [1, 0]" and d1: "draw 2 1 ?g = [0, 1]"
    by (simp_all add: draw_def numeral_2_eq_2)
  have z: "zero_residual float64 [[1, 0], [0, 1]] [[2, 3], [4, 5]] [[2, 3], [4, 6]] (draw 2 0 ?g)"
    unfolding d0
    by (simp add: zero_residual_def residual_def matvec_def ncols_def float64_def dot64_def
        vsub_def any_def)
  have nz: "nonzero_residual float64 [[1, 0], [0, 1]] [[2, 3], [4, 5]] [[2, 3], [4, 6]] (draw 2 1 ?g)"
    unfolding d1
    by (simp add: nonzero_residual_def residual_def matvec_def ncols_def float64_def dot64_def
        vsub_def any_def)
  have first: "\<forall>j<1. zero_residual float64 [[1, 0], [0, 1]] [[2, 3], [4, 5]] [[2, 3], [4, 6]] (draw 2 j ?g)"
    using z by simp
  have "\<forall>i<nat 2. nonzero_residual float64 [[1, 0], [0, 1]] [[2, 3], [4, 5]] [[2, 3], [4, 6]] (draw 2 i ?g)
              \<and> (\<forall>j<i. zero_residual float64 [[1, 0], [0, 1]] [[2, 3], [4, 5]] [[2, 3], [4, 6]] (draw 2 j ?g))
            \<longrightarrow> is_correct_mult float64 [[1, 0], [0, 1]] [[2, 3], [4, 5]] [[2, 3], [4, 6]] 2 ?g
                  = (Inr False, sdrop (Suc i * 2) ?g)"
    using early_exit [OF sq, of float64 2 ?g] by blast
  then have "is_correct_mult float64 [[1, 0], [0, 1]] [[2, 3], [4, 5]] [[2, 3], [4, 6]] 2 ?g
                  = (Inr False, sdrop (Suc 1 * 2) ?g)"
    using nz first by (metis one_less_numeral_iff nat_numeral semiring_norm(76))
  moreover have "sdrop (Suc 1 * 2) ?g = sconst 0"
    by (simp add: eval_nat_numeral)
  ultimately have "is_correct_mult float64 [[1, 0], [0, 1]] [[2, 3], [4, 5]] [[2, 3], [4, 6]] 2 ?g
                  = (Inr False, sconst 0)"
    by (simp only:)
  then show ?thesis
    using sq z nz by simp
qed

text \<open>
  C8. For the matrices without rows, \<open>is_correct_mult\<close> returns \<open>True\<close> for every repetition
  count: every drawn vector is empty, and so is every residual.
\<close>

theorem empty_matrices: "fst (is_correct_mult ar [] [] [] k g) = Inr True"
proof -
  have "zero_residual ar [] [] [] (draw 0 i g)" for i
    by (simp add: zero_residual_def residual_def matvec_def ncols_def vsub_def any_def draw_def)
  then show ?thesis
    by (simp add: is_correct_mult_def rounds_all_zero)
qed

text \<open>
  C6, as the code has it. There is no check of the repetition count: for \<open>k < 1\<close> the loop
  body never runs, and the call returns \<open>True\<close> without drawing a vector and without an
  error, whatever the matrices are.
\<close>

theorem repetition_count_below_one:
  "k < 1 \<Longrightarrow> is_correct_mult ar A B C k g = (Inr True, g)"
  by (simp add: is_correct_mult_def)

theorem repetition_count_below_one_witness:
  "(-3 :: int) < 1
   \<and> is_correct_mult float64 [[1]] [[1]] [[2]] (-3) (sconst 1) = (Inr True, sconst 1)"
  using repetition_count_below_one [of "-3" float64 "[[1]]" "[[1]]" "[[2]]" "sconst 1"] by simp

text \<open>C6 as stated fails: with \<open>k = 0\<close> the call returns a verdict, not an error.\<close>

theorem invalid_repetition_count_counterexample:
  "is_correct_mult float64 [[1]] [[1]] [[2]] 0 (sconst 1) = (Inr True, sconst 1)"
  by (simp add: is_correct_mult_def)

text \<open>
  C7, as the code has it. There is no check of the dimensions; an error arises only where
  a NumPy operation rejects its operands. When \<open>A\<close>, \<open>B\<close>, \<open>C\<close> are square, their dimensions are
  not all the same and \<open>k \<ge> 1\<close>, the first repetition draws its vector and fails with a
  \<open>ValueError\<close> in a matrix-vector product, before any residual exists.
\<close>

theorem dimension_mismatch_square:
  assumes A: "square a A" and B: "square b B" and C: "square c C"
    and ne: "\<not> (a = b \<and> b = c)" and k: "1 \<le> k"
  shows "is_correct_mult ar A B C k g = (Inl ValueError, sdrop a g)"
proof -
  obtain k' where k': "nat k = Suc k'" using k by (cases "nat k") auto
  have len: "length (draw a 0 g) = a" by (rule length_draw)
  have "residual ar A B C (draw a 0 g) = Inl ValueError"
  proof (cases "a = b")
    case False
    then show ?thesis
      by (simp add: residual_def matvec_def ncols_square [OF B] len)
  next
    case True
    with ne have "c \<noteq> a" by simp
    then show ?thesis
      using True
      by (simp add: residual_def matvec_def ncols_square [OF A] ncols_square [OF B]
          ncols_square [OF C] len square_length [OF B])
  qed
  then show ?thesis
    by (simp only: is_correct_mult_def k' square_length [OF A] rounds_Suc) simp
qed

theorem dimension_mismatch_square_witness:
  "square 2 [[1, 0], [0, 1]] \<and> square 2 [[1, 2], [3, 4]] \<and> square 1 [[1]]
   \<and> \<not> ((2::nat) = 2 \<and> (2::nat) = 1) \<and> (1::int) \<le> 1
   \<and> is_correct_mult float64 [[1, 0], [0, 1]] [[1, 2], [3, 4]] [[1]] 1 (sconst 1)
       = (Inl ValueError, sconst 1)"
proof -
  have sq: "square 2 [[1, 0], [0, 1]]" "square 2 [[1, 2], [3, 4]]" "square 1 [[1]]"
    by (simp_all add: square_def)
  have ne: "\<not> ((2::nat) = 2 \<and> (2::nat) = 1)" by simp
  have k: "(1::int) \<le> 1" by simp
  show ?thesis
    using dimension_mismatch_square [OF sq ne k, of float64 "sconst 1"] sq by simp
qed

text \<open>C7 as stated fails: a 2-by-3 \<open>A\<close>, a 3-by-2 \<open>B\<close> and a 2-by-2 \<open>C\<close> share no square
  dimension, and the call returns a verdict.\<close>

theorem dimension_mismatch_counterexample:
  "fst (is_correct_mult float64 [[1, 0, 0], [0, 1, 0]] [[1, 2], [3, 4], [5, 6]] [[1, 2], [3, 4]] 1
         (sconst 1)) = Inr True"
  by (simp add: is_correct_mult_def randint_def residual_def matvec_def ncols_def float64_def
      dot64_def vsub_def any_def)

text \<open>
  C5, as the code has it. The test \<open>res.any()\<close> compares every entry of the residual with zero
  exactly, whatever the matrices, their shapes and the arithmetic: as soon as a repetition
  computes a residual with an entry other than zero, however small its magnitude, the call
  returns \<open>False\<close>, after that repetition.
\<close>

theorem exact_zero_test:
  assumes "i < nat k"
    and "\<forall>j<i. zero_residual ar A B C (draw (length A) j g)"
    and "residual ar A B C (draw (length A) i g) = Inr res"
    and "x \<in> set res" and "x \<noteq> 0"
  shows "is_correct_mult ar A B C k g = (Inr False, sdrop (Suc i * length A) g)"
proof -
  have "any res"
    using assms(4,5) by (auto simp: any_def list_ex_iff)
  then have "nonzero_residual ar A B C (draw (length A) i g)"
    by (simp add: nonzero_residual_def assms(3))
  with assms(1,2) show ?thesis
    unfolding is_correct_mult_def by (rule rounds_first_nonzero)
qed

theorem exact_zero_test_witness:
  "(0::nat) < nat 1
   \<and> residual float64 [[1, 0], [0, 1]] [[1, 0], [0, 1]] [[1, 0], [0, 1 - 1 / 2 ^ 53]]
        (draw (length [[1, 0], [0, 1 :: real]]) 0 (1 ## 1 ## sconst 0)) = Inr [0, 1 / 2 ^ 53]
   \<and> (1 / 2 ^ 53 :: real) \<in> set [0, 1 / 2 ^ 53] \<and> (1 / 2 ^ 53 :: real) \<noteq> 0
   \<and> is_correct_mult float64 [[1, 0], [0, 1]] [[1, 0], [0, 1]] [[1, 0], [0, 1 - 1 / 2 ^ 53]] 1
        (1 ## 1 ## sconst 0) = (Inr False, sconst 0)"
proof -
  let ?g = "1 ## 1 ## sconst (0::nat)"
  let ?A = "[[1, 0], [0, 1 :: real]]"
  let ?C = "[[1, 0], [0, 1 - 1 / 2 ^ 53 :: real]]"
  have f1: "binary64 (9007199254740991 / 9007199254740992)
              = 9007199254740991 / 9007199254740992"
    using binary64_dyadic [of "2 ^ 53 - 1" 53] by simp
  have f2: "binary64 (1 / 9007199254740992) = 1 / 9007199254740992"
    using binary64_dyadic [of 1 53] by simp
  have d: "draw (length ?A) 0 ?g = [1, 1]"
    by (simp add: draw_def numeral_2_eq_2)
  have res: "residual float64 ?A ?A ?C (draw (length ?A) 0 ?g) = Inr [0, 1 / 2 ^ 53]"
    unfolding d
    by (simp add: residual_def matvec_def ncols_def float64_def dot64_def vsub_def f1 f2)
  have i: "(0::nat) < nat 1" by simp
  have before: "\<forall>j<0. zero_residual float64 ?A ?A ?C (draw (length ?A) j ?g)" by simp
  have x: "(1 / 2 ^ 53 :: real) \<in> set [0, 1 / 2 ^ 53]" "(1 / 2 ^ 53 :: real) \<noteq> 0"
    by simp_all
  have "is_correct_mult float64 ?A ?A ?C 1 ?g = (Inr False, sdrop (Suc 0 * length ?A) ?g)"
    using i before res x by (rule exact_zero_test)
  moreover have "sdrop (Suc 0 * length ?A) ?g = sconst 0"
    by simp
  ultimately have "is_correct_mult float64 ?A ?A ?C 1 ?g = (Inr False, sconst 0)"
    by (simp only:)
  then show ?thesis
    using i res x by (simp only: simp_thms)
qed

text \<open>C5 as stated fails: the residual \<open>2^-53\<close> is within the tolerance \<open>2^-52\<close>, machine
  epsilon for matrices of magnitude 1, and the call still returns \<open>False\<close>.\<close>

theorem tolerance_counterexample:
  "residual float64 [[1]] [[1]] [[1 - 1 / 2 ^ 53]] [1] = Inr [1 / 2 ^ 53]
   \<and> \<not> any_beyond (1 / 2 ^ 52) [1 / 2 ^ 53]
   \<and> any [1 / 2 ^ 53]
   \<and> fst (is_correct_mult float64 [[1]] [[1]] [[1 - 1 / 2 ^ 53]] 1 (1 ## sconst 0)) = Inr False"
proof -
  have f1: "binary64 (9007199254740991 / 9007199254740992)
              = 9007199254740991 / 9007199254740992"
    using binary64_dyadic [of "2 ^ 53 - 1" 53] by simp
  have f2: "binary64 (1 / 9007199254740992) = 1 / 9007199254740992"
    using binary64_dyadic [of 1 53] by simp
  show ?thesis
    by (simp add: is_correct_mult_def randint_def residual_def matvec_def ncols_def float64_def
        dot64_def vsub_def any_def any_beyond_def f1 f2)
qed

section \<open>The case generator and the experiment: auxiliary facts\<close>

lemma unit_float_range: "0 \<le> unit_float r \<and> unit_float r < 1"
proof -
  have "r mod 2 ^ 53 < (2 ^ 53 :: nat)" by simp
  then have "real (r mod 2 ^ 53) < 2 ^ 53"
    by (metis of_nat_less_iff of_nat_numeral of_nat_power)
  then show ?thesis by (simp add: unit_float_def)
qed

lemma unit_float_zero_iff: "unit_float r = 0 \<longleftrightarrow> r mod 2 ^ 53 = 0"
  by (simp add: unit_float_def)

lemma random_matrix_square: "square n (fst (random_matrix n g))"
  by (simp add: random_matrix_def square_def list_all_iff)

lemma random_matrix_state: "snd (random_matrix n g) = sdrop (n * n) g"
  by (simp add: random_matrix_def)

lemma random_matrix_range:
  "row \<in> set (fst (random_matrix n g)) \<Longrightarrow> x \<in> set row \<Longrightarrow> 0 \<le> x \<and> x < 1"
  by (auto simp: random_matrix_def unit_float_range)

lemma square_update:
  "square n P \<Longrightarrow> square n (P[i := (P ! i)[j := v]])"
  by (cases "i < length P") (auto simp: square_def list_all_length nth_list_update)

lemma stake_2: "stake 2 g = [shd g, shd (stl g)]"
  by (simp add: numeral_2_eq_2)

text \<open>What \<open>make_test\<close> returns for \<open>n \<ge> 1\<close>, in terms of the numbers it takes from the
  generator.\<close>

lemma make_test_result:
  assumes n: "0 < n"
  shows "\<exists>A B correct i j r.
           make_test ar n g =
             (Inr (A, B, correct[i := (correct ! i)[j := add ar (correct ! i ! j) r]]),
              sdrop (2 * (n * n) + 3) g)
         \<and> A = fst (random_matrix n g) \<and> B = fst (random_matrix n (sdrop (n * n) g))
         \<and> square n A \<and> square n B \<and> matmul ar A B = Inr correct \<and> square n correct
         \<and> i = g !! (2 * (n * n)) mod n \<and> j = g !! (2 * (n * n) + 1) mod n
         \<and> r = unit_float (g !! (2 * (n * n) + 2))"
proof -
  define A where "A = fst (random_matrix n g)"
  define B where "B = fst (random_matrix n (sdrop (n * n) g))"
  define correct where "correct = map (\<lambda>row. map (\<lambda>j. inner ar row (column B j)) [0..<n]) A"
  define g2 where "g2 = sdrop (2 * (n * n)) g"
  have A: "square n A" and B: "square n B"
    by (simp_all add: A_def B_def random_matrix_square)
  have P: "matmul ar A B = Inr correct"
    unfolding correct_def using A B by (rule matmul_square)
  have sqP: "square n correct" using A B P by (rule matmul_Inr_square)
  have rA: "random_matrix n g = (A, sdrop (n * n) g)"
    by (simp add: A_def random_matrix_def)
  have rB: "random_matrix n (sdrop (n * n) g) = (B, g2)"
    by (simp add: B_def g2_def random_matrix_def mult_2)
  have ri: "randint 0 n 2 g2 = (Inr [shd g2 mod n, shd (stl g2) mod n], sdrop 2 g2)"
    using n by (simp add: randint_def stake_2)
  have rr: "random (sdrop 2 g2) = (unit_float (shd (sdrop 2 g2)), stl (sdrop 2 g2))"
    by (simp add: random_def)
  have s0: "shd g2 = g !! (2 * (n * n))"
    using sdrop_snth [of "2 * (n * n)" g 0] by (simp add: g2_def)
  have s1: "shd (stl g2) = g !! (2 * (n * n) + 1)"
    using sdrop_snth [of "2 * (n * n)" g 1] by (simp add: g2_def)
  have s2: "shd (sdrop 2 g2) = g !! (2 * (n * n) + 2)"
    using sdrop_snth [of "2 * (n * n) + 2" g 0] by (simp add: g2_def)
  have s3: "stl (sdrop 2 g2) = sdrop (2 * (n * n) + 3) g"
  proof -
    have "stl (sdrop 2 g2) = sdrop (Suc 2) g2"
      by (simp only: sdrop.simps(2) sdrop_stl)
    also have "\<dots> = sdrop (2 * (n * n) + Suc 2) g"
      by (simp only: g2_def sdrop_add)
    also have "2 * (n * n) + Suc 2 = 2 * (n * n) + 3"
      by simp
    finally show ?thesis .
  qed
  have "make_test ar n g =
      (Inr (A, B, correct[shd g2 mod n := (correct ! (shd g2 mod n))
              [shd (stl g2) mod n := add ar (correct ! (shd g2 mod n) ! (shd (stl g2) mod n))
                 (unit_float (shd (sdrop 2 g2)))]]),
       stl (sdrop 2 g2))"
    by (simp add: make_test_def rA rB P ri rr Let_def)
  then show ?thesis
    using A B P sqP unfolding s0 s1 s2 s3 A_def B_def by blast
qed

text \<open>The postcondition of \<open>make_test\<close> for \<open>n \<ge> 1\<close>, in every arithmetic: at most the cell
  \<open>(i, j)\<close> of \<open>incorrect\<close> differs from the product as the arithmetic computes it; that cell
  holds the sum, as the arithmetic computes it, of the product's cell and the number \<open>r\<close> of
  \<open>[0, 1)\<close> that \<open>random\<close> returned, which is zero for one outcome of the generator in
  \<open>2^53\<close>.\<close>

lemma make_test_postcondition:
  assumes n: "0 < n"
  shows "\<exists>A B correct incorrect i j r g'.
           make_test ar n g = (Inr (A, B, incorrect), g')
         \<and> square n A \<and> square n B \<and> square n incorrect \<and> matmul ar A B = Inr correct
         \<and> i < n \<and> j < n \<and> 0 \<le> r \<and> r < 1
         \<and> (r = 0 \<longleftrightarrow> g !! (2 * (n * n) + 2) mod 2 ^ 53 = 0)
         \<and> incorrect ! i ! j = add ar (correct ! i ! j) r
         \<and> (\<forall>i'<n. \<forall>j'<n. (i', j') \<noteq> (i, j) \<longrightarrow> incorrect ! i' ! j' = correct ! i' ! j')"
proof -
  obtain A B correct i j r where
    mt: "make_test ar n g =
           (Inr (A, B, correct[i := (correct ! i)[j := add ar (correct ! i ! j) r]]),
            sdrop (2 * (n * n) + 3) g)"
    and sq: "square n A" "square n B" "matmul ar A B = Inr correct" "square n correct"
    and i: "i = g !! (2 * (n * n)) mod n" and j: "j = g !! (2 * (n * n) + 1) mod n"
    and r: "r = unit_float (g !! (2 * (n * n) + 2))"
    using make_test_result [OF n, of ar g] by blast
  let ?inc = "correct[i := (correct ! i)[j := add ar (correct ! i ! j) r]]"
  have lt: "i < n" "j < n" using n by (simp_all add: i j)
  have len: "length correct = n" "length (correct ! i) = n"
    using sq(4) lt by (simp_all add: square_length square_row)
  have cell: "?inc ! i ! j = add ar (correct ! i ! j) r"
    using lt len by simp
  have other: "?inc ! i' ! j' = correct ! i' ! j'" if "i' < n" "j' < n" "(i', j') \<noteq> (i, j)" for i' j'
    using that lt len by (cases "i' = i") auto
  have rng: "0 \<le> r" "r < 1" by (simp_all add: r unit_float_range)
  have zero: "r = 0 \<longleftrightarrow> g !! (2 * (n * n) + 2) mod 2 ^ 53 = 0"
    unfolding r by (rule unit_float_zero_iff)
  have sqi: "square n ?inc" using sq(4) by (rule square_update)
  have oth: "\<forall>i'<n. \<forall>j'<n. (i', j') \<noteq> (i, j) \<longrightarrow> ?inc ! i' ! j' = correct ! i' ! j'"
    using other by blast
  show ?thesis
    apply (intro exI conjI)
               apply (rule mt)
              apply (rule sq(1))
             apply (rule sq(2))
            apply (rule sqi)
           apply (rule sq(3))
          apply (rule lt(1))
         apply (rule lt(2))
        apply (rule rng(1))
       apply (rule rng(2))
      apply (rule zero)
     apply (rule cell)
    apply (rule oth)
    done
qed

lemma rounds_verdict:
  assumes A: "square n A" and B: "square n B" and C: "square n C"
  shows "\<exists>v. rounds ar A B C n k g = (Inr v, snd (rounds ar A B C n k g))"
proof (induction k arbitrary: g)
  case 0
  show ?case by auto
next
  case (Suc k)
  have "\<exists>res. residual ar A B C (draw n 0 g) = Inr res"
    by (simp add: residual_square [OF A B C length_draw])
  then obtain res where res: "residual ar A B C (draw n 0 g) = Inr res" ..
  show ?case
    using Suc.IH [of "sdrop n g"] by (simp only: rounds_Suc res) auto
qed

lemma is_correct_mult_verdict:
  assumes "square n A" and "square n B" and "square n C"
  shows "\<exists>v g'. is_correct_mult ar A B C k g = (Inr v, g')"
  using rounds_verdict [OF assms, of ar "nat k" g]
  by (auto simp: is_correct_mult_def square_length [OF assms(1)])

lemma trial_verdicts:
  assumes n: "0 < n"
  shows "\<exists>A B C g1 v1 g2 v2 g3.
           make_test ar n g = (Inr (A, B, C), g1)
         \<and> is_correct_mult ar A B C 1 g1 = (Inr v1, g2)
         \<and> is_correct_mult ar A B C 2 g2 = (Inr v2, g3)
         \<and> trial ar n g = (Inr (v1, v2), g3)"
proof -
  obtain A B C g1 where mt: "make_test ar n g = (Inr (A, B, C), g1)"
    and sq: "square n A" "square n B" "square n C"
    using make_test_postcondition [OF n, of ar g] by blast
  obtain v1 g2 where c1: "is_correct_mult ar A B C 1 g1 = (Inr v1, g2)"
    using is_correct_mult_verdict [OF sq] by blast
  obtain v2 g3 where c2: "is_correct_mult ar A B C 2 g2 = (Inr v2, g3)"
    using is_correct_mult_verdict [OF sq] by blast
  have "trial ar n g = (Inr (v1, v2), g3)"
    by (simp add: trial_def mt c1 c2)
  then show ?thesis using mt c1 c2 by blast
qed

lemma trials_counts:
  assumes n: "0 < n"
  shows "trials ar n T (a, a2) g =
           (Inr (a + detected (verdicts ar n T g), a2 + detected_with_k2 (verdicts ar n T g)),
            after_trials ar n T g)
         \<and> length (verdicts ar n T g) = T"
proof (induction T arbitrary: a a2 g)
  case 0
  show ?case by (simp add: detected_def detected_with_k2_def)
next
  case (Suc T)
  obtain v1 v2 g' where t: "trial ar n g = (Inr (v1, v2), g')"
    using trial_verdicts [OF n, of ar g] by blast
  show ?case
    using Suc.IH [of _ _ g']
    by (simp add: t detected_def detected_with_k2_def)
qed

lemma detected_le: "detected vs \<le> length vs" "detected_with_k2 vs \<le> length vs"
  by (simp_all add: detected_def detected_with_k2_def)

lemma sweep_counts:
  assumes "\<forall>n\<in>set ns. 0 < n"
  shows "sweep ar ns T (gc, gc2) g =
           (Inr (gc @ map (\<lambda>d. detected (verdicts ar (ns ! d) T (after_dims ar (take d ns) T g)))
                        [0..<length ns],
                 gc2 @ map (\<lambda>d. detected_with_k2 (verdicts ar (ns ! d) T (after_dims ar (take d ns) T g)))
                        [0..<length ns]),
            after_dims ar ns T g)"
  using assms
proof (induction ns arbitrary: gc gc2 g)
  case Nil
  show ?case by simp
next
  case (Cons n ns)
  have n: "0 < n" and rest: "\<forall>n\<in>set ns. 0 < n" using Cons.prems by simp_all
  have shift: "map (\<lambda>d. f ((n # ns) ! d) (after_dims ar (take d (n # ns)) T g)) [0..<length (n # ns)]
      = f n g # map (\<lambda>d. f (ns ! d) (after_dims ar (take d ns) T (after_trials ar n T g))) [0..<length ns]"
    for f :: "nat \<Rightarrow> rng \<Rightarrow> nat"
    unfolding length_Cons map_upt_Suc by simp
  show ?case
    by (simp only: sweep.simps trials_counts [OF n] Cons.IH [OF rest] shift
        [of "\<lambda>m h. detected (verdicts ar m T h)"] shift [of "\<lambda>m h. detected_with_k2 (verdicts ar m T h)"]
        after_dims.simps prod.case sum.case add_0 append_Cons append_Nil append_assoc)
qed

text \<open>Evaluating a stream at numerals.\<close>

lemma snth_numeral: "s !! numeral k = stl s !! pred_numeral k"
  by (simp add: numeral_eq_Suc)

lemma sdrop_numeral: "sdrop (numeral k) s = sdrop (pred_numeral k) (stl s)"
  by (simp add: numeral_eq_Suc)

lemma stake_numeral: "stake (numeral k) s = shd s # stake (pred_numeral k) (stl s)"
  by (simp add: numeral_eq_Suc)

lemmas stream_numeral = snth_numeral sdrop_numeral stake_numeral

lemma singleton_list: "length xs = 1 \<Longrightarrow> xs ! 0 = a \<Longrightarrow> xs = [a]"
  by (cases xs) auto

section \<open>Properties of the case generator and of the experiment\<close>

text \<open>
  C9. In every arithmetic, the sweep over the dimensions \<open>lo, \<dots>, hi\<close> with \<open>1 \<le> lo \<le> hi\<close>
  ends without an error and produces two sequences of length \<open>hi - lo + 1\<close>. The entries for the dimension \<open>lo + d\<close>
  are the numbers of trials, among the \<open>T\<close> trials of that dimension, in which the verifier
  returned \<open>False\<close> with \<open>k = 1\<close> and with \<open>k = 2\<close>; both lie between 0 and \<open>T\<close>. Every trial
  generates one instance with \<open>make_test\<close> and calls \<open>is_correct_mult\<close> on that instance with
  \<open>k = 1\<close> and then with \<open>k = 2\<close>.
\<close>

theorem experiment_counts:
  assumes lo: "1 \<le> lo" and hi: "lo \<le> hi"
  shows "\<exists>good_counts good_counts_with_k2.
           run_experiment ar lo hi T g =
             (Inr (good_counts, good_counts_with_k2), after_dims ar [lo..<hi + 1] T g)
         \<and> length good_counts = hi - lo + 1
         \<and> length good_counts_with_k2 = hi - lo + 1
         \<and> (\<forall>d<hi - lo + 1.
               length (verdicts ar (lo + d) T (after_dims ar [lo..<lo + d] T g)) = T
             \<and> good_counts ! d = detected (verdicts ar (lo + d) T (after_dims ar [lo..<lo + d] T g))
             \<and> good_counts_with_k2 ! d
                 = detected_with_k2 (verdicts ar (lo + d) T (after_dims ar [lo..<lo + d] T g))
             \<and> good_counts ! d \<le> T \<and> good_counts_with_k2 ! d \<le> T)
         \<and> (\<forall>n\<ge>lo. \<forall>h. \<exists>A B C g1 v1 g2 v2 g3.
               make_test ar n h = (Inr (A, B, C), g1)
             \<and> is_correct_mult ar A B C 1 g1 = (Inr v1, g2)
             \<and> is_correct_mult ar A B C 2 g2 = (Inr v2, g3)
             \<and> trial ar n h = (Inr (v1, v2), g3))"
proof -
  let ?ns = "[lo..<hi + 1]"
  let ?vs = "\<lambda>d. verdicts ar (?ns ! d) T (after_dims ar (take d ?ns) T g)"
  let ?gc = "map (\<lambda>d. detected (?vs d)) [0..<length ?ns]"
  let ?gc2 = "map (\<lambda>d. detected_with_k2 (?vs d)) [0..<length ?ns]"
  have pos: "\<forall>n\<in>set ?ns. 0 < n" using lo by auto
  have len: "length ?ns = hi - lo + 1" using hi by simp
  have run: "run_experiment ar lo hi T g = (Inr (?gc, ?gc2), after_dims ar ?ns T g)"
    unfolding run_experiment_def using sweep_counts [OF pos, of ar T "[]" "[]" g]
    by (simp only: append_Nil)
  have entry: "?vs d = verdicts ar (lo + d) T (after_dims ar [lo..<lo + d] T g)"
    if "d < hi - lo + 1" for d
  proof -
    have "?ns ! d = lo + d" using that hi by (intro nth_upt) simp
    moreover have "take d ?ns = [lo..<lo + d]" using that hi by simp
    ultimately show ?thesis by (simp only:)
  qed
  have lenv: "length (verdicts ar (lo + d) T h) = T" for d h
    using trials_counts [of "lo + d" ar T 0 0 h] lo by simp
  have each: "length (verdicts ar (lo + d) T (after_dims ar [lo..<lo + d] T g)) = T
             \<and> ?gc ! d = detected (verdicts ar (lo + d) T (after_dims ar [lo..<lo + d] T g))
             \<and> ?gc2 ! d = detected_with_k2 (verdicts ar (lo + d) T (after_dims ar [lo..<lo + d] T g))
             \<and> ?gc ! d \<le> T \<and> ?gc2 ! d \<le> T"
    if d: "d < hi - lo + 1" for d
  proof -
    have d': "d < length ?ns" using d len by simp
    have 1: "?gc ! d = detected (?vs d)" "?gc2 ! d = detected_with_k2 (?vs d)"
      using d' by (simp_all only: nth_map_upt add_0 length_upt minus_nat.diff_0)
    have 2: "detected (verdicts ar (lo + d) T h) \<le> T"
            "detected_with_k2 (verdicts ar (lo + d) T h) \<le> T" for h
      using detected_le [of "verdicts ar (lo + d) T h"] by (simp_all only: lenv)
    show ?thesis
      unfolding 1 entry [OF d] using 2 lenv by blast
  qed
  have body: "\<exists>A B C g1 v1 g2 v2 g3.
               make_test ar n h = (Inr (A, B, C), g1)
             \<and> is_correct_mult ar A B C 1 g1 = (Inr v1, g2)
             \<and> is_correct_mult ar A B C 2 g2 = (Inr v2, g3)
             \<and> trial ar n h = (Inr (v1, v2), g3)" if "lo \<le> n" for n h
    using trial_verdicts [of n ar h] lo that by simp
  have lens: "length ?gc = hi - lo + 1" "length ?gc2 = hi - lo + 1"
    using len by simp_all
  show ?thesis
    using run lens each body by blast
qed


theorem experiment_counts_witness:
  "(1::nat) \<le> 1 \<and> (1::nat) \<le> 1
   \<and> fst (run_experiment float64 1 1 1 (0 ## 0 ## 0 ## 0 ## 2 ^ 52 ## sconst 1)) = Inr ([1], [1])
   \<and> verdicts float64 1 1 (0 ## 0 ## 0 ## 0 ## 2 ^ 52 ## sconst 1) = [(False, False)]"
proof -
  let ?g = "0 ## 0 ## 0 ## 0 ## 2 ^ 52 ## sconst (1::nat)"
  have h: "binary64 (1 / 2) = 1 / 2" "binary64 (- (1 / 2)) = - (1 / 2)"
    using binary64_dyadic [of 1 1] binary64_dyadic [of "- 1" 1] by simp_all
  have mt: "make_test float64 1 ?g = (Inr ([[0]], [[0]], [[1 / 2]]), sconst 1)"
    by (simp add: make_test_def random_matrix_def matmul_def ncols_def float64_def dot64_def
        column_def randint_def random_def unit_float_def stream_numeral h)
  have c1: "is_correct_mult float64 [[0]] [[0]] [[1 / 2]] 1 (sconst 1) = (Inr False, sconst 1)"
    by (simp add: is_correct_mult_def randint_def residual_def matvec_def ncols_def float64_def
        dot64_def vsub_def any_def h)
  have c2: "is_correct_mult float64 [[0]] [[0]] [[1 / 2]] 2 (sconst 1) = (Inr False, sconst 1)"
    unfolding is_correct_mult_def nat_2
    by (simp add: randint_def residual_def matvec_def ncols_def float64_def dot64_def vsub_def
        any_def h)
  have t: "trial float64 1 ?g = (Inr (False, False), sconst 1)"
    by (simp only: trial_def mt c1 c2 prod.case sum.case)
  have "verdicts float64 1 (Suc 0) ?g = [(False, False)]"
    by (simp only: verdicts.simps t prod.case sum.case)
  then have vs: "verdicts float64 1 1 ?g = [(False, False)]"
    by (simp only: One_nat_def)
  from experiment_counts [OF order_refl order_refl, of float64 1 ?g] obtain gc gc2 where
    run: "run_experiment float64 1 1 1 ?g = (Inr (gc, gc2), after_dims float64 [1..<1 + 1] 1 ?g)"
    and len: "length gc = 1 - 1 + 1" "length gc2 = 1 - 1 + 1"
    and entries: "\<forall>d<1 - 1 + 1.
               length (verdicts float64 (1 + d) 1 (after_dims float64 [1..<1 + d] 1 ?g)) = 1
             \<and> gc ! d = detected (verdicts float64 (1 + d) 1 (after_dims float64 [1..<1 + d] 1 ?g))
             \<and> gc2 ! d = detected_with_k2 (verdicts float64 (1 + d) 1 (after_dims float64 [1..<1 + d] 1 ?g))
             \<and> gc ! d \<le> 1 \<and> gc2 ! d \<le> 1"
    by (elim exE conjE) (rule that)
  have e0: "gc ! 0 = detected (verdicts float64 (1 + 0) 1 (after_dims float64 [1..<1 + 0] 1 ?g))
          \<and> gc2 ! 0 = detected_with_k2 (verdicts float64 (1 + 0) 1 (after_dims float64 [1..<1 + 0] 1 ?g))"
    using entries by simp
  have z: "after_dims float64 [1..<1] 1 ?g = ?g"
    by simp
  have e1: "gc ! 0 = detected [(False, False)] \<and> gc2 ! 0 = detected_with_k2 [(False, False)]"
    using e0 by (simp only: add_0_right z vs)
  have "gc ! 0 = 1" "gc2 ! 0 = 1"
    using e1 by (simp_all add: detected_def detected_with_k2_def)
  moreover have "length gc = 1" "length gc2 = 1" using len by simp_all
  ultimately have "gc = [1]" "gc2 = [1]"
    by (simp_all add: singleton_list)
  then have "fst (run_experiment float64 1 1 1 ?g) = Inr ([1], [1])"
    by (simp only: run fst_conv)
  then show ?thesis
    using vs by (simp only: order_refl simp_thms)
qed

text \<open>
  C4 at the input where it fails. \<open>np.random.random()\<close> ranges over \<open>[0, 1)\<close>, zero included.
  When the perturbation drawn is zero, here for \<open>n = 1\<close> with \<open>A = B = [[1/2]]\<close>, the matrix
  returned as \<open>incorrect\<close> is the true product: no cell differs.
\<close>

theorem make_test_zero_perturbation:
  "fst (make_test float64 1 (2 ^ 52 ## 2 ^ 52 ## sconst 0)) = Inr ([[1 / 2]], [[1 / 2]], [[1 / 4]])
   \<and> matmul exact [[1 / 2]] [[1 / 2]] = Inr [[1 / 4]]
   \<and> matmul float64 [[1 / 2]] [[1 / 2]] = Inr [[1 / 4]]"
proof -
  have h: "binary64 (1 / 4) = 1 / 4"
    using binary64_dyadic [of 1 2] by simp
  show ?thesis
    by (simp add: make_test_def random_matrix_def matmul_def ncols_def float64_def dot64_def
        dot_def column_def randint_def random_def unit_float_def stream_numeral h)
qed

text \<open>
  A perturbation other than zero can have the same effect. For \<open>n = 2\<close> with all entries of
  \<open>A\<close> and \<open>B\<close> equal to \<open>3/4\<close> the product has the entries \<open>9/8\<close>; the perturbation \<open>2^-53\<close>
  added to one of them is lost in the rounding of the sum, and \<open>incorrect\<close> is again the
  product.
\<close>

lemma make_test_absorbed_perturbation:
  "fst (make_test float64 2
          (3 * 2 ^ 51 ## 3 * 2 ^ 51 ## 3 * 2 ^ 51 ## 3 * 2 ^ 51 ##
           3 * 2 ^ 51 ## 3 * 2 ^ 51 ## 3 * 2 ^ 51 ## 3 * 2 ^ 51 ## 0 ## 0 ## 1 ## g))
     = Inr ([[3 / 4, 3 / 4], [3 / 4, 3 / 4]], [[3 / 4, 3 / 4], [3 / 4, 3 / 4]],
            [[9 / 8, 9 / 8], [9 / 8, 9 / 8]])
   \<and> matmul float64 [[3 / 4, 3 / 4], [3 / 4, 3 / 4]] [[3 / 4, 3 / 4], [3 / 4, 3 / 4]]
       = Inr [[9 / 8, 9 / 8], [9 / 8, 9 / 8]]
   \<and> fst (random (1 ## g)) = 1 / 2 ^ 53"
proof -
  have f1: "binary64 (9 / 16) = 9 / 16"
    using binary64_dyadic [of 9 4] by simp
  have f2: "binary64 (9 / 8) = 9 / 8"
    using binary64_dyadic [of 9 3] by simp
  have f3: "binary64 (10133099161583617 / 9007199254740992) = 9 / 8"
    using binary64_eval [of 0 "9 / 8 + 1 / 2 ^ 53"] by (simp add: round_even_def)
  have rm: "\<And>a b c d h. random_matrix 2 (a ## b ## c ## d ## h)
              = ([[unit_float a, unit_float b], [unit_float c, unit_float d]], h)"
    by (simp add: random_matrix_def stream_numeral numeral_2_eq_2)
  have uf: "unit_float (3 * 2 ^ 51) = 3 / 4" "unit_float 1 = 1 / 2 ^ 53"
    by (simp_all add: unit_float_def)
  have P: "matmul float64 [[3 / 4, 3 / 4], [3 / 4, 3 / 4]] [[3 / 4, 3 / 4], [3 / 4, 3 / 4]]
             = Inr [[9 / 8, 9 / 8], [9 / 8, 9 / 8]]"
    by (simp add: matmul_def ncols_def float64_def dot64_def column_def f1 f2 numeral_2_eq_2)
  have ri: "randint 0 2 2 (0 ## 0 ## 1 ## g) = (Inr [0, 0], 1 ## g)"
    by (simp add: randint_def stream_numeral)
  have rr: "random (1 ## g) = (1 / 2 ^ 53, g)"
    by (simp add: random_def unit_float_def)
  have ad: "add float64 (9 / 8) (1 / 9007199254740992) = 9 / 8"
    by (simp add: float64_def f3)
  have "make_test float64 2
          (3 * 2 ^ 51 ## 3 * 2 ^ 51 ## 3 * 2 ^ 51 ## 3 * 2 ^ 51 ##
           3 * 2 ^ 51 ## 3 * 2 ^ 51 ## 3 * 2 ^ 51 ## 3 * 2 ^ 51 ## 0 ## 0 ## 1 ## g)
        = (Inr ([[3 / 4, 3 / 4], [3 / 4, 3 / 4]], [[3 / 4, 3 / 4], [3 / 4, 3 / 4]],
            [[9 / 8, 9 / 8], [9 / 8, 9 / 8]]), g)"
    unfolding make_test_def rm uf Let_def prod.case P sum.case ri rr
    by (simp add: ad)
  then show ?thesis
    using P rr by (simp only: fst_conv simp_thms)
qed

section \<open>Counting the vectors that hide an error\<close>

lemma dot_update:
  assumes j: "j < length row" and len: "length X = length row"
  shows "dot row (X[j := v]) = dot row X + row ! j * (v - X ! j)"
proof -
  let ?n = "length row"
  have fin: "finite {..<?n}" and mem: "j \<in> {..<?n}" using j by simp_all
  have "dot row (X[j := v]) = (\<Sum>i<?n. row ! i * X[j := v] ! i)"
    using len by (simp add: dot_sum)
  also have "\<dots> = row ! j * X[j := v] ! j + (\<Sum>i\<in>{..<?n} - {j}. row ! i * X[j := v] ! i)"
    using fin mem by (rule sum.remove)
  also have "(\<Sum>i\<in>{..<?n} - {j}. row ! i * X[j := v] ! i) = (\<Sum>i\<in>{..<?n} - {j}. row ! i * X ! i)"
    by (intro sum.cong refl) simp
  also have "row ! j * X[j := v] ! j = row ! j * X ! j + row ! j * (v - X ! j)"
    using j len by (simp add: algebra_simps)
  finally have "dot row (X[j := v])
      = (row ! j * X ! j + (\<Sum>i\<in>{..<?n} - {j}. row ! i * X ! i)) + row ! j * (v - X ! j)"
    by simp
  also have "row ! j * X ! j + (\<Sum>i\<in>{..<?n} - {j}. row ! i * X ! i) = (\<Sum>i<?n. row ! i * X ! i)"
    using fin mem by (rule sum.remove [symmetric])
  also have "\<dots> = dot row X"
    using len by (simp add: dot_sum)
  finally show ?thesis .
qed

lemma any_nth: "any v \<longleftrightarrow> (\<exists>i<length v. v ! i \<noteq> 0)"
  unfolding any_def list_ex_iff by (metis in_set_conv_nth)

lemma zero_residual_iff:
  assumes A: "square n A" and B: "square n B" and C: "square n C"
    and P: "matmul exact A B = Inr P" and X: "length X = n"
  shows "zero_residual exact A B C X \<longleftrightarrow> (\<forall>i<n. dot (P ! i) X = dot (C ! i) X)"
proof -
  have sqP: "square n P" using A B P by (rule matmul_Inr_square)
  have lens: "length P = n" "length C = n"
    using sqP C by (simp_all add: square_length)
  have "residual exact A B C X = naive_residual exact A B C X"
    by (simp only: naive_residual_square [OF A B C X])
  also have "\<dots> = vsub exact (map (\<lambda>row. dot row X) P) (map (\<lambda>row. dot row X) C)"
    by (simp only: naive_residual_def P matvec_square_exact [OF sqP X] matvec_square_exact [OF C X] sum.case)
  also have "\<dots> = Inr (map2 (-) (map (\<lambda>row. dot row X) P) (map (\<lambda>row. dot row X) C))"
    by (simp add: vsub_def lens)
  finally have res: "residual exact A B C X
      = Inr (map2 (-) (map (\<lambda>row. dot row X) P) (map (\<lambda>row. dot row X) C))" .
  have "any (map2 (-) (map (\<lambda>row. dot row X) P) (map (\<lambda>row. dot row X) C))
      \<longleftrightarrow> (\<exists>i<n. dot (P ! i) X \<noteq> dot (C ! i) X)"
  proof -
    have "map2 (-) (map (\<lambda>row. dot row X) P) (map (\<lambda>row. dot row X) C) ! i
        = dot (P ! i) X - dot (C ! i) X" if "i < n" for i
      using that lens by simp
    then show ?thesis
      using lens by (simp add: any_nth cong: conj_cong)
  qed
  then show ?thesis
    by (auto simp add: zero_residual_def res)
qed

lemma square_differ:
  assumes P: "square n P" and C: "square n C" and ne: "C \<noteq> P"
  shows "\<exists>i<n. \<exists>j<n. P ! i ! j \<noteq> C ! i ! j"
proof (rule ccontr)
  assume "\<not> ?thesis"
  then have eq: "P ! i ! j = C ! i ! j" if "i < n" "j < n" for i j using that by blast
  have "C = P"
  proof (rule nth_equalityI)
    show "length C = length P" using P C by (simp add: square_length)
  next
    fix i assume "i < length C"
    then have i: "i < n" using C by (simp add: square_length)
    show "C ! i = P ! i"
      using eq [OF i] square_row [OF P i] square_row [OF C i]
      by (intro nth_equalityI) simp_all
  qed
  with ne show False by contradiction
qed

lemma set_binary_vectors: "set (binary_vectors n) = {X. length X = n \<and> set X \<subseteq> {0, 1}}"
  by (auto simp: binary_vectors_def set_n_lists)

lemma distinct_binary_vectors: "distinct (binary_vectors n)"
  by (simp add: binary_vectors_def distinct_n_lists)

lemma length_binary_vectors: "length (binary_vectors n) = 2 ^ n"
  by (simp add: binary_vectors_def length_n_lists numeral_2_eq_2)

lemma card_binary_vectors: "card (set (binary_vectors n)) = 2 ^ n"
  by (simp add: distinct_card distinct_binary_vectors length_binary_vectors)

text \<open>Flipping the entry \<open>j\<close> of a binary vector changes entry \<open>i\<close> of the residual by
  \<open>\<plusminus>(P[i][j] - C[i][j])\<close>: of a vector and its flip, at most one has a zero residual.\<close>

lemma flip_not_accepted:
  assumes A: "square n A" and B: "square n B" and C: "square n C"
    and P: "matmul exact A B = Inr P" and i: "i < n" and j: "j < n"
    and ne: "P ! i ! j \<noteq> C ! i ! j"
    and X: "length X = n" and bit: "X ! j \<le> 1"
    and zero: "zero_residual exact A B C (map real X)"
  shows "\<not> zero_residual exact A B C (map real (X[j := 1 - X ! j]))"
proof
  assume zero': "zero_residual exact A B C (map real (X[j := 1 - X ! j]))"
  let ?Xr = "map real X"
  let ?v = "real (1 - X ! j)"
  have sqP: "square n P" using A B P by (rule matmul_Inr_square)
  have lenX: "length ?Xr = n" using X by simp
  have upd: "map real (X[j := 1 - X ! j]) = ?Xr[j := ?v]"
    by (simp add: map_update)
  have lenP: "length (P ! i) = n" and lenC: "length (C ! i) = n"
    using sqP C i by (simp_all add: square_row)
  have e1: "dot (P ! i) ?Xr = dot (C ! i) ?Xr"
    using zero i by (simp add: zero_residual_iff [OF A B C P lenX])
  have e2: "dot (P ! i) (?Xr[j := ?v]) = dot (C ! i) (?Xr[j := ?v])"
    using zero' i unfolding upd by (simp add: zero_residual_iff [OF A B C P] X)
  have d1: "dot (P ! i) (?Xr[j := ?v]) = dot (P ! i) ?Xr + P ! i ! j * (?v - ?Xr ! j)"
    using j by (intro dot_update) (simp_all add: lenP X)
  have d2: "dot (C ! i) (?Xr[j := ?v]) = dot (C ! i) ?Xr + C ! i ! j * (?v - ?Xr ! j)"
    using j by (intro dot_update) (simp_all add: lenC X)
  have "P ! i ! j * (?v - ?Xr ! j) = C ! i ! j * (?v - ?Xr ! j)"
    using e1 e2 d1 d2 by simp
  moreover have "?v - ?Xr ! j \<noteq> 0"
    using bit j X by (cases "X ! j = 0") auto
  ultimately show False using ne by simp
qed

lemma accepted_vectors_half:
  assumes A: "square n A" and B: "square n B" and C: "square n C"
    and P: "matmul exact A B = Inr P" and ne: "C \<noteq> P"
  shows "2 * length (accepted_vectors exact A B C n) \<le> 2 ^ n"
proof -
  have sqP: "square n P" using A B P by (rule matmul_Inr_square)
  obtain i j where i: "i < n" and j: "j < n" and d: "P ! i ! j \<noteq> C ! i ! j"
    using square_differ [OF sqP C ne] by blast
  let ?V = "set (binary_vectors n)"
  let ?Z = "set (accepted_vectors exact A B C n)"
  let ?flip = "\<lambda>X. X[j := 1 - X ! j]"
  have Z: "?Z = {X \<in> ?V. zero_residual exact A B C (map real X)}"
    by (auto simp: accepted_vectors_def)
  have V: "X \<in> ?V \<longleftrightarrow> length X = n \<and> set X \<subseteq> {0, 1}" for X
    by (simp add: set_binary_vectors)
  have bitj: "X ! j \<le> 1" if "X \<in> ?V" for X
  proof -
    have "X ! j \<in> set X" using that j by (simp add: V)
    then show ?thesis using that by (auto simp: V)
  qed
  have flipV: "?flip X \<in> ?V" if "X \<in> ?V" for X
  proof -
    have "set (?flip X) \<subseteq> insert (1 - X ! j) (set X)" by (rule set_update_subset_insert)
    moreover have "1 - X ! j \<in> {0, 1}" by auto
    ultimately show ?thesis using that by (auto simp: V)
  qed
  have invol: "?flip (?flip X) = X" if "X \<in> ?V" for X
  proof -
    have "1 - (1 - X ! j) = X ! j" using bitj [OF that] by simp
    then show ?thesis using that j by (simp add: V)
  qed
  have inj: "inj_on ?flip ?Z"
  proof (rule inj_on_inverseI [where g = ?flip])
    fix X assume "X \<in> ?Z"
    then have "X \<in> ?V" unfolding Z by simp
    then show "?flip (?flip X) = X" by (rule invol)
  qed
  have img: "?flip ` ?Z \<subseteq> ?V - ?Z"
  proof
    fix Y assume "Y \<in> ?flip ` ?Z"
    then obtain X where X: "X \<in> ?V" "zero_residual exact A B C (map real X)" and Y: "Y = ?flip X"
      by (auto simp: Z)
    have "\<not> zero_residual exact A B C (map real Y)"
      unfolding Y using A B C P i j d _ bitj [OF X(1)] X(2)
      by (rule flip_not_accepted) (use X(1) in \<open>simp add: V\<close>)
    then show "Y \<in> ?V - ?Z"
      using flipV [OF X(1)] by (simp add: Y Z)
  qed
  have "card ?Z \<le> card (?V - ?Z)"
    using inj img by (intro card_inj_on_le) simp_all
  also have "\<dots> = card ?V - card ?Z"
    by (intro card_Diff_subset) (auto simp: Z)
  finally have "2 * card ?Z \<le> card ?V"
    by simp
  moreover have "card ?Z = length (accepted_vectors exact A B C n)"
    by (intro distinct_card) (simp add: accepted_vectors_def distinct_binary_vectors)
  ultimately show ?thesis
    by (simp add: card_binary_vectors)
qed

lemma rounds_Suc_True:
  "fst (rounds ar A B C n (Suc k) g) = Inr True \<Longrightarrow>
   zero_residual ar A B C (draw n 0 g) \<and> fst (rounds ar A B C n k (sdrop n g)) = Inr True"
  by (simp only: rounds_Suc) (auto simp: zero_residual_def split: sum.splits if_splits)

lemma draw_tape:
  assumes len: "n \<le> length bs" and bits: "set bs \<subseteq> {0, 1}"
  shows "draw n 0 (bs @- g) = map real (take n bs)"
proof -
  have "stake n (bs @- g) = take n bs"
    using len by (simp add: stake_shift)
  moreover have "map (\<lambda>r. real (r mod 2)) (take n bs) = map real (take n bs)"
  proof (rule map_cong [OF refl])
    fix r assume "r \<in> set (take n bs)"
    then have "r \<in> {0, 1}" using bits by (auto dest: in_set_takeD)
    then show "real (r mod 2) = real r" by auto
  qed
  ultimately show ?thesis by (simp add: draw_def)
qed

lemma accepted_tapes_rounds:
  fixes ar :: arithmetic and A B C :: matrix and n :: nat and g :: rng
  defines "Z \<equiv> set (accepted_vectors ar A B C n)"
  defines "S \<equiv> \<lambda>k. {bs \<in> set (binary_vectors (k * n)). fst (rounds ar A B C n k (bs @- g)) = Inr True}"
  shows "card (S k) \<le> card Z ^ k"
proof (induction k)
  case 0
  have "S 0 \<subseteq> {[]}" by (auto simp: S_def set_binary_vectors)
  then have "card (S 0) \<le> card {[] :: nat list}" by (intro card_mono) simp_all
  then show ?case by simp
next
  case (Suc k)
  have finZ: "finite Z" and finS: "finite (S k)"
    by (simp_all add: Z_def S_def)
  have sub: "S (Suc k) \<subseteq> (\<lambda>(X, bs). X @ bs) ` (Z \<times> S k)"
  proof
    fix bs' assume "bs' \<in> S (Suc k)"
    then have len: "length bs' = n + k * n" and bits: "set bs' \<subseteq> {0, 1}"
      and acc: "fst (rounds ar A B C n (Suc k) (bs' @- g)) = Inr True"
      by (simp_all add: S_def set_binary_vectors)
    let ?X = "take n bs'" and ?bs = "drop n bs'"
    have n: "n \<le> length bs'" using len by simp
    have tail: "sdrop n (bs' @- g) = ?bs @- g"
      using n by (simp add: sdrop_shift)
    have step: "zero_residual ar A B C (map real ?X)" "fst (rounds ar A B C n k (?bs @- g)) = Inr True"
      using rounds_Suc_True [OF acc] by (simp_all add: draw_tape [OF n bits] tail)
    have "?X \<in> set (binary_vectors n)"
      using n bits by (auto simp: set_binary_vectors dest: in_set_takeD)
    then have X: "?X \<in> Z" using step(1) by (simp add: Z_def accepted_vectors_def)
    have "?bs \<in> set (binary_vectors (k * n))"
      using len bits by (auto simp: set_binary_vectors dest: in_set_dropD)
    then have bs: "?bs \<in> S k" using step(2) by (simp add: S_def)
    have "bs' = (\<lambda>(X, bs). X @ bs) (?X, ?bs)" by simp
    then show "bs' \<in> (\<lambda>(X, bs). X @ bs) ` (Z \<times> S k)"
      using X bs by blast
  qed
  have "card (S (Suc k)) \<le> card ((\<lambda>(X, bs). X @ bs) ` (Z \<times> S k))"
    using sub finZ finS by (intro card_mono) simp_all
  also have "\<dots> \<le> card (Z \<times> S k)"
    using finZ finS by (intro card_image_le) simp
  also have "\<dots> = card Z * card (S k)"
    by (rule card_cartesian_product)
  also have "\<dots> \<le> card Z * card Z ^ k"
    using Suc.IH by simp
  finally show ?case by simp
qed

lemma accepted_tapes_bound:
  assumes A: "square n A" and B: "square n B" and C: "square n C"
    and P: "matmul exact A B = Inr P" and ne: "C \<noteq> P"
  shows "2 ^ nat k * length (accepted_tapes exact A B C k g) \<le> 2 ^ (nat k * n)"
proof -
  let ?Z = "set (accepted_vectors exact A B C n)"
  let ?S = "{bs \<in> set (binary_vectors (nat k * n)).
              fst (rounds exact A B C n (nat k) (bs @- g)) = Inr True}"
  have cardZ: "card ?Z = length (accepted_vectors exact A B C n)"
    by (intro distinct_card) (simp add: accepted_vectors_def distinct_binary_vectors)
  have "set (accepted_tapes exact A B C k g) = ?S"
    by (auto simp: accepted_tapes_def is_correct_mult_def square_length [OF A])
  moreover have "distinct (accepted_tapes exact A B C k g)"
    by (simp add: accepted_tapes_def distinct_binary_vectors)
  ultimately have "length (accepted_tapes exact A B C k g) = card ?S"
    by (metis distinct_card)
  also have "\<dots> \<le> card ?Z ^ nat k"
    by (rule accepted_tapes_rounds)
  finally have "2 ^ nat k * length (accepted_tapes exact A B C k g) \<le> 2 ^ nat k * card ?Z ^ nat k"
    by simp
  also have "\<dots> = (2 * card ?Z) ^ nat k"
    by (simp add: power_mult_distrib)
  also have "\<dots> \<le> (2 ^ n) ^ nat k"
    using accepted_vectors_half [OF A B C P ne] by (intro power_mono) (simp_all add: cardZ)
  also have "\<dots> = 2 ^ (nat k * n)"
    by (simp add: power_mult mult.commute)
  finally show ?thesis .
qed

section \<open>The error bound\<close>

text \<open>
  In exact arithmetic the bound holds. Let \<open>A\<close>, \<open>B\<close>, \<open>C\<close> be \<open>n\<close>-by-\<open>n\<close> with \<open>C\<close> different from
  the product \<open>A @ B\<close>. The list \<open>binary_vectors n\<close> enumerates the \<open>2^n\<close> vectors of \<open>{0,1}^n\<close>
  without repetition, and at most half of them have a zero residual. A call with \<open>k\<close>
  repetitions is decided by the first \<open>k * n\<close> numbers of the generator; of their \<open>2^(k * n)\<close>
  outcomes in \<open>{0,1}\<close>, at most the fraction \<open>2^-k\<close> makes \<open>is_correct_mult\<close> return \<open>True\<close>.
\<close>

lemma bounded_error_exact:
  assumes "square n A" and "square n B" and "square n C"
    and "matmul exact A B = Inr P" and "C \<noteq> P"
  shows "distinct (binary_vectors n)
       \<and> set (binary_vectors n) = {X. length X = n \<and> set X \<subseteq> {0, 1}}
       \<and> length (binary_vectors n) = 2 ^ n
       \<and> 2 * length (accepted_vectors exact A B C n) \<le> 2 ^ n
       \<and> length (binary_vectors (nat k * n)) = 2 ^ (nat k * n)
       \<and> 2 ^ nat k * length (accepted_tapes exact A B C k g) \<le> 2 ^ (nat k * n)"
  using accepted_vectors_half [OF assms] accepted_tapes_bound [OF assms, of k g]
  by (simp add: distinct_binary_vectors set_binary_vectors length_binary_vectors)


end
